theory Spec2Isabelle
  imports Complex_Main "HOL-Library.Word"
begin

unbundle bit_operations_syntax

section \<open>Machine model shared by the scan code and the renderer\<close>

text \<open>
  The CUDA sources are embedded with these conventions.
  \<^item> A C \<open>int\<close> used as a count or an index is an \<open>int\<close> kept in the range
    \<open>-2^31 .. 2^31-1\<close> by \<open>wrap32\<close>, which is written at every operation of the source
    that can leave the range (two's complement wrap-around, as the device computes).
  \<^item> The \<open>int\<close> elements of the scanned arrays are \<open>32 word\<close>: \<open>+\<close> wraps.
  \<^item> A device buffer is a list; an access outside \<open>0 ..< length\<close> is the fault
    \<open>OutOfBounds\<close>, a division by zero is \<open>DivByZero\<close>, a read of a local variable that
    was never assigned is \<open>Uninitialized\<close>.
  \<^item> A kern launch \<open><<<blocks, threadsPerBlock>>>\<close> runs the kern body once for each
    global thread index \<open>0 ..< blocks * threadsPerBlock\<close>, in index order, and stops at the
    first fault. In the launches of this development the threads that finish without a
    fault write pairwise different elements, so the order does not change the result.
\<close>

datatype fault = OutOfBounds | DivByZero | Uninitialized

definition wrap32 :: "int \<Rightarrow> int" where
  "wrap32 x = (x + 2147483648) mod 4294967296 - 2147483648"

definition c_div :: "int \<Rightarrow> int \<Rightarrow> fault + int" where
  "c_div a b = (if b = 0 then Inl DivByZero
                else Inr (wrap32 (sgn a * sgn b * (\<bar>a\<bar> div \<bar>b\<bar>))))"

definition rd :: "'a list \<Rightarrow> int \<Rightarrow> fault + 'a" where
  "rd xs i = (if 0 \<le> i \<and> i < int (length xs) then Inr (xs ! nat i) else Inl OutOfBounds)"

definition wr :: "'a list \<Rightarrow> int \<Rightarrow> 'a \<Rightarrow> fault + 'a list" where
  "wr xs i v = (if 0 \<le> i \<and> i < int (length xs) then Inr (xs[nat i := v]) else Inl OutOfBounds)"

fun run_threads :: "(int \<Rightarrow> 's \<Rightarrow> fault + 's) \<Rightarrow> nat list \<Rightarrow> 's \<Rightarrow> fault + 's" where
  "run_threads kern [] s = Inr s"
| "run_threads kern (t # ts) s =
     (case kern (int t) s of Inl e \<Rightarrow> Inl e | Inr s' \<Rightarrow> run_threads kern ts s')"

definition launch :: "int \<Rightarrow> int \<Rightarrow> (int \<Rightarrow> 's \<Rightarrow> fault + 's) \<Rightarrow> 's \<Rightarrow> fault + 's" where
  "launch blocks threadsPerBlock kern s =
     run_threads kern [0 ..< nat (blocks * threadsPerBlock)] s"

section \<open>scan: the device-wide exclusive scan and find_peaks\<close>

definition nextPow2 :: "int \<Rightarrow> int" where
  "nextPow2 n0 =
     (let n = wrap32 (n0 - 1);
          n = n OR drop_bit 1 n;
          n = n OR drop_bit 2 n;
          n = n OR drop_bit 4 n;
          n = n OR drop_bit 8 n;
          n = n OR drop_bit 16 n
      in wrap32 (n + 1))"

definition upsweep_kernel ::
    "int \<Rightarrow> int \<Rightarrow> int \<Rightarrow> int \<Rightarrow> 32 word list \<Rightarrow> fault + 32 word list" where
  "upsweep_kernel len twod twod1 index device_data =
     (let i = wrap32 (index * twod1) in
      if i < len then
        (case rd device_data (wrap32 (wrap32 (i + twod) - 1)) of
           Inl e \<Rightarrow> Inl e
         | Inr a \<Rightarrow>
             (case rd device_data (wrap32 (wrap32 (i + twod1) - 1)) of
                Inl e \<Rightarrow> Inl e
              | Inr b \<Rightarrow> wr device_data (wrap32 (wrap32 (i + twod1) - 1)) (b + a)))
      else Inr device_data)"

definition downsweep_kernel ::
    "int \<Rightarrow> int \<Rightarrow> int \<Rightarrow> int \<Rightarrow> 32 word list \<Rightarrow> fault + 32 word list" where
  "downsweep_kernel len twod twod1 index device_data =
     (let i = wrap32 (index * twod1) in
      if i < len then
        (case rd device_data (wrap32 (wrap32 (i + twod) - 1)) of
           Inl e \<Rightarrow> Inl e
         | Inr t \<Rightarrow>
             (case rd device_data (wrap32 (wrap32 (i + twod1) - 1)) of
                Inl e \<Rightarrow> Inl e
              | Inr b \<Rightarrow>
                  (case wr device_data (wrap32 (wrap32 (i + twod) - 1)) b of
                     Inl e \<Rightarrow> Inl e
                   | Inr d' \<Rightarrow> wr d' (wrap32 (wrap32 (i + twod1) - 1)) (b + t))))
      else Inr device_data)"

definition threadsPerBlock :: int where
  "threadsPerBlock = 512"

definition num_blocks :: "int \<Rightarrow> int \<Rightarrow> fault + int" where
  "num_blocks len twod1 =
     (case c_div len twod1 of
        Inl e \<Rightarrow> Inl e
      | Inr N \<Rightarrow> c_div (wrap32 (wrap32 (N + threadsPerBlock) - 1)) threadsPerBlock)"

function upsweep_loop :: "int \<Rightarrow> int \<Rightarrow> 32 word list \<Rightarrow> fault + 32 word list" where
  "upsweep_loop len twod d =
     (if twod < len then
        (let twod1 = wrap32 (twod * 2) in
         case num_blocks len twod1 of
           Inl e \<Rightarrow> Inl e
         | Inr blocks \<Rightarrow>
             (case launch blocks threadsPerBlock (upsweep_kernel len twod twod1) d of
                Inl e \<Rightarrow> Inl e
              | Inr d' \<Rightarrow> upsweep_loop len (wrap32 (twod * 2)) d'))
      else Inr d)"
  by pat_completeness auto

text \<open>
  The loop \<open>for (twod = 1; twod < length; twod *= 2)\<close> is total on every start value:
  doubling modulo \<open>2^32\<close> reaches 0 after at most 32 steps, and then the division
  \<open>length / twod1\<close> is the fault \<open>DivByZero\<close>.
\<close>

definition doublings :: "int \<Rightarrow> nat" where
  "doublings t = (LEAST k. (t * 2 ^ k) mod 4294967296 = 0)"

lemma wrap32_mod: "wrap32 x mod 4294967296 = x mod 4294967296"
proof -
  have "((x + 2147483648) mod 4294967296 - 2147483648) mod 4294967296
          = ((x + 2147483648) - 2147483648) mod 4294967296"
    by (simp only: mod_diff_left_eq)
  then show ?thesis by (simp add: wrap32_def)
qed

lemma wrap32_id: "- 2147483648 \<le> x \<Longrightarrow> x < 2147483648 \<Longrightarrow> wrap32 x = x"
  by (simp add: wrap32_def)

lemma wrap32_range: "- 2147483648 \<le> wrap32 x \<and> wrap32 x < 2147483648"
proof -
  have "0 \<le> (x + 2147483648) mod 4294967296" "(x + 2147483648) mod 4294967296 < 4294967296"
    by simp_all
  then show ?thesis unfolding wrap32_def by linarith
qed

lemma doublings_zero: "(t * 2 ^ doublings t) mod 4294967296 = 0"
proof -
  have "(t * 2 ^ 32) mod 4294967296 = (0::int)" by simp
  then show ?thesis unfolding doublings_def by (rule LeastI)
qed

lemma doublings_decr:
  assumes "wrap32 (t * 2) \<noteq> 0"
  shows "doublings (wrap32 (t * 2)) < doublings t"
proof -
  have nz: "(t * 2) mod 4294967296 \<noteq> 0"
  proof
    assume z: "(t * 2) mod 4294967296 = 0"
    have "(t * 2 + 2147483648) mod 4294967296
            = ((t * 2) mod 4294967296 + 2147483648) mod 4294967296"
      by (simp only: mod_add_left_eq)
    with z have "wrap32 (t * 2) = 0" by (simp add: wrap32_def)
    with assms show False by simp
  qed
  have "doublings t \<noteq> 0"
  proof
    assume "doublings t = 0"
    with doublings_zero[of t] have "t mod 4294967296 = 0" by simp
    then have "(t * 2) mod 4294967296 = 0" by (metis mod_mult_left_eq mult_zero_left mod_0)
    with nz show False by simp
  qed
  then obtain j where j: "doublings t = Suc j" by (cases "doublings t") auto
  have "(wrap32 (t * 2) * 2 ^ j) mod 4294967296 = ((t * 2) * 2 ^ j) mod 4294967296"
    by (rule mod_mult_cong[OF wrap32_mod refl])
  also have "\<dots> = (t * 2 ^ Suc j) mod 4294967296" by (simp add: mult.assoc)
  also have "\<dots> = 0" using doublings_zero[of t] j by simp
  finally have "doublings (wrap32 (t * 2)) \<le> j"
    unfolding doublings_def by (rule Least_le)
  with j show ?thesis by simp
qed

lemma num_blocks_Inr: "num_blocks len twod1 = Inr b \<Longrightarrow> twod1 \<noteq> 0"
  by (cases "twod1 = 0") (simp_all add: num_blocks_def c_div_def)

termination upsweep_loop
proof (relation "measure (\<lambda>(len, twod, d). doublings twod)")
  show "wf (measure (\<lambda>(len, twod, d). doublings twod))" by simp
next
  fix len twod :: int and d :: "32 word list" and x blocks d'
  assume "x = wrap32 (twod * 2)" and "num_blocks len x = Inr blocks"
  then have "wrap32 (twod * 2) \<noteq> 0" using num_blocks_Inr by blast
  then have "doublings (wrap32 (twod * 2)) < doublings twod" by (rule doublings_decr)
  then show "((len, wrap32 (twod * 2), d'), (len, twod, d))
               \<in> measure (\<lambda>(len, twod, d). doublings twod)"
    by simp
qed

function downsweep_loop :: "int \<Rightarrow> int \<Rightarrow> 32 word list \<Rightarrow> fault + 32 word list" where
  "downsweep_loop len twod d =
     (if twod \<ge> 1 then
        (let twod1 = wrap32 (twod * 2) in
         case num_blocks len twod1 of
           Inl e \<Rightarrow> Inl e
         | Inr blocks \<Rightarrow>
             (case launch blocks threadsPerBlock (downsweep_kernel len twod twod1) d of
                Inl e \<Rightarrow> Inl e
              | Inr d' \<Rightarrow> downsweep_loop len (twod div 2) d'))
      else Inr d)"
  by pat_completeness auto
termination
  by (relation "measure (\<lambda>(len, twod, d). nat twod)") auto

declare upsweep_loop.simps [simp del] downsweep_loop.simps [simp del]

definition exclusive_scan :: "32 word list \<Rightarrow> int \<Rightarrow> fault + 32 word list" where
  "exclusive_scan device_data length0 =
     (let len = nextPow2 length0 in
      case upsweep_loop len 1 device_data of
        Inl e \<Rightarrow> Inl e
      | Inr d1 \<Rightarrow>
          (case wr d1 (wrap32 (len - 1)) 0 of
             Inl e \<Rightarrow> Inl e
           | Inr d2 \<Rightarrow>
               (case c_div len 2 of
                  Inl e \<Rightarrow> Inl e
                | Inr h \<Rightarrow> downsweep_loop len h d2)))"

text \<open>
  \<open>cudaScan\<close> allocates \<open>nextPow2 n\<close> elements, copies the \<open>n\<close> input elements to the
  front and leaves the rest as \<open>cudaMalloc\<close> returned it: \<open>garbage i\<close> is what the buffer
  held at index \<open>i\<close>. It copies the first \<open>n\<close> elements of the result back.
\<close>

definition cudaScan :: "32 word list \<Rightarrow> (nat \<Rightarrow> 32 word) \<Rightarrow> fault + 32 word list" where
  "cudaScan inarray garbage =
     (let n = int (length inarray);
          rounded_length = nextPow2 n
      in if rounded_length < n then Inl OutOfBounds
         else
           (let device_data = inarray @ map garbage [length inarray ..< nat rounded_length]
            in case exclusive_scan device_data n of
                 Inl e \<Rightarrow> Inl e
               | Inr r \<Rightarrow> Inr (take (length inarray) r)))"

subsection \<open>Vocabulary for the correctness proof of the scan\<close>

text \<open>
  \<open>upsweep_pass t\<close> and \<open>downsweep_pass t\<close> are the sequential loops that the source keeps
  in comments beside each kernel launch (\<open>for (i = 0; i < length; i += twod1) ...\<close>), as
  functions on the whole array. \<open>launch_fits L t1\<close> says that the index \<open>index * twod1\<close> of the
  last launched thread stays below \<open>2^31\<close>. \<open>seg d a b\<close> is the sum of \<open>d[a..b-1]\<close>,
  \<open>blk e m\<close> the largest power of two that divides \<open>m\<close>, capped at \<open>2^e\<close>; \<open>up_inv\<close> and
  \<open>down_inv\<close> are the loop invariants of the two sweeps. \<open>smear\<close> is the shift-and-or
  cascade of \<open>nextPow2\<close>.
\<close>

definition upsweep_pass :: "nat \<Rightarrow> 32 word list \<Rightarrow> 32 word list" where
  "upsweep_pass t d =
     map (\<lambda>j. if (2 * t) dvd (j + 1) then d ! j + d ! (j - t) else d ! j) [0 ..< length d]"

definition downsweep_pass :: "nat \<Rightarrow> 32 word list \<Rightarrow> 32 word list" where
  "downsweep_pass t d =
     map (\<lambda>j. if (2 * t) dvd (j + 1) then d ! j + d ! (j - t)
               else if t dvd (j + 1) then d ! (j + t) else d ! j) [0 ..< length d]"

definition launch_fits :: "nat \<Rightarrow> nat \<Rightarrow> bool" where
  "launch_fits L t1 \<longleftrightarrow> (((L div t1 + 511) div 512) * 512 - 1) * t1 < 2147483648"

fun blk :: "nat \<Rightarrow> nat \<Rightarrow> nat" where
  "blk 0 m = 1"
| "blk (Suc e) m = (if 2 ^ Suc e dvd m then 2 ^ Suc e else blk e m)"

definition seg :: "32 word list \<Rightarrow> nat \<Rightarrow> nat \<Rightarrow> 32 word" where
  "seg d a b = (\<Sum>i = a ..< b. d ! i)"

definition up_inv :: "nat \<Rightarrow> 32 word list \<Rightarrow> 32 word list \<Rightarrow> bool" where
  "up_inv e d0 u \<longleftrightarrow>
     length u = length d0 \<and>
     (\<forall>j < length d0. u ! j = seg d0 (j + 1 - blk e (j + 1)) (j + 1))"

definition down_inv :: "nat \<Rightarrow> 32 word list \<Rightarrow> 32 word list \<Rightarrow> bool" where
  "down_inv e d0 w \<longleftrightarrow>
     length w = length d0 \<and>
     (\<forall>j < length d0. w ! j = (if 2 ^ e dvd (j + 1) then seg d0 0 (j + 1 - 2 ^ e)
                               else seg d0 (j + 1 - blk e (j + 1)) (j + 1)))"

definition up_fits :: "nat \<Rightarrow> nat \<Rightarrow> bool" where
  "up_fits K e \<longleftrightarrow> (\<forall>e'. e \<le> e' \<and> e' < K \<longrightarrow> launch_fits (2 ^ K) (2 ^ Suc e'))"

definition down_fits :: "nat \<Rightarrow> nat \<Rightarrow> bool" where
  "down_fits K e \<longleftrightarrow> (\<forall>e'\<le>e. launch_fits (2 ^ K) (2 ^ Suc e'))"

definition scan_fits :: "nat \<Rightarrow> bool" where
  "scan_fits K \<longleftrightarrow> (\<forall>e<K. launch_fits (2 ^ K) (2 ^ Suc e))"

definition smear :: "int \<Rightarrow> int" where
  "smear m =
     (let n = m;
          n = n OR drop_bit 1 n;
          n = n OR drop_bit 2 n;
          n = n OR drop_bit 4 n;
          n = n OR drop_bit 8 n;
          n = n OR drop_bit 16 n
      in n)"

subsection \<open>find_peaks\<close>

text \<open>
  \<open>find_peak_kernel\<close> has no bounds guard: every launched thread reads \<open>data[i-1]\<close>,
  \<open>data[i]\<close> and (when the first comparison holds, \<open>&&\<close> being short-circuit)
  \<open>data[i+1]\<close>, and writes \<open>peaks[i]\<close>. \<open>int\<close> elements are compared as signed values.
\<close>

definition find_peak_kernel ::
    "32 word list \<Rightarrow> int \<Rightarrow> int \<Rightarrow> 32 word list \<Rightarrow> fault + 32 word list" where
  "find_peak_kernel data len index peaks =
     (let i = index in
      case rd data (wrap32 (i - 1)) of
        Inl e \<Rightarrow> Inl e
      | Inr a \<Rightarrow>
          (case rd data i of
             Inl e \<Rightarrow> Inl e
           | Inr b \<Rightarrow>
               if sint a < sint b then
                 (case rd data (wrap32 (i + 1)) of
                    Inl e \<Rightarrow> Inl e
                  | Inr c \<Rightarrow> wr peaks i (if sint b > sint c then 1 else 0))
               else wr peaks i 0))"

definition make_list_kernel ::
    "32 word list \<Rightarrow> 32 word list \<Rightarrow> int \<Rightarrow> 32 word list \<Rightarrow> fault + 32 word list" where
  "make_list_kernel peaks prefixes index result =
     (let i = index in
      case rd peaks i of
        Inl e \<Rightarrow> Inl e
      | Inr p \<Rightarrow>
          if p \<noteq> 0 then
            (case rd prefixes i of
               Inl e \<Rightarrow> Inl e
             | Inr idx \<Rightarrow> wr result (sint idx) (word_of_int i))
          else Inr result)"

text \<open>
  \<open>find_peaks\<close> returns the count and the output buffer. \<open>g_peaks\<close> and \<open>g_prefixes\<close> are the
  contents the two \<open>cudaMalloc\<close>'ed buffers start with, \<open>g_scan\<close> those of the buffer inside
  \<open>cudaScan\<close>.
\<close>

definition find_peaks ::
    "32 word list \<Rightarrow> int \<Rightarrow> 32 word list \<Rightarrow> (nat \<Rightarrow> 32 word) \<Rightarrow> (nat \<Rightarrow> 32 word)
       \<Rightarrow> (nat \<Rightarrow> 32 word) \<Rightarrow> fault + (int \<times> 32 word list)" where
  "find_peaks device_input len device_output g_peaks g_prefixes g_scan =
     (let N = nextPow2 len in
      case c_div (wrap32 (wrap32 (N + threadsPerBlock) - 1)) threadsPerBlock of
        Inl e \<Rightarrow> Inl e
      | Inr blocks \<Rightarrow>
          (let peaks = map g_peaks [0 ..< nat N];
               prefixes = map g_prefixes [0 ..< nat N]
           in case launch blocks threadsPerBlock (find_peak_kernel device_input len) peaks of
                Inl e \<Rightarrow> Inl e
              | Inr peaks1 \<Rightarrow>
                  (case wr peaks1 0 0 of
                     Inl e \<Rightarrow> Inl e
                   | Inr peaks2 \<Rightarrow>
                       (case wr peaks2 (wrap32 (len - 1)) 0 of
                          Inl e \<Rightarrow> Inl e
                        | Inr peaks3 \<Rightarrow>
                            (case cudaScan (take (nat len) peaks3) g_scan of
                               Inl e \<Rightarrow> Inl e
                             | Inr res \<Rightarrow>
                                 (let prefixes1 = res @ drop (nat len) prefixes
                                  in case launch blocks threadsPerBlock
                                            (make_list_kernel peaks3 prefixes1) device_output of
                                       Inl e \<Rightarrow> Inl e
                                     | Inr out \<Rightarrow>
                                         (case rd prefixes1 (wrap32 (len - 1)) of
                                            Inl e \<Rightarrow> Inl e
                                          | Inr ans \<Rightarrow> Inr (sint ans, out))))))))"

section \<open>render: the tile pipeline of the circle renderer\<close>

text \<open>
  \<open>hitCircles\<close>, \<open>prefixes\<close> and \<open>hitCirclesList\<close> are flat \<open>int\<close> arrays of
  \<open>numBlocks * numCircles\<close> elements, row \<open>blockIdx.x\<close> belonging to one tile; their elements
  are modelled as \<open>int\<close>. An index such as \<open>blockIdx.x*numCircles + i\<close> mixes \<open>unsigned\<close> and
  \<open>int\<close> and is computed modulo \<open>2^32\<close> (\<open>u32\<close>); assigned to an \<open>int\<close> it is read back
  as a signed value (\<open>wrap32\<close>).

  The three tile kernels are launched with one block per tile and 1024 threads per block
  (\<open>CudaRenderer::render\<close>). \<open>run_grid\<close> runs a kernel without barriers for the pairs
  (block, thread) in order, as \<open>run_threads\<close> does for a one-dimensional launch.
\<close>

definition u32 :: "int \<Rightarrow> int" where
  "u32 x = x mod 4294967296"

definition SCAN_BLOCK_DIM :: int where
  "SCAN_BLOCK_DIM = 1024"

fun run_grid :: "(nat \<Rightarrow> nat \<Rightarrow> 's \<Rightarrow> fault + 's) \<Rightarrow> (nat \<times> nat) list \<Rightarrow> 's \<Rightarrow> fault + 's" where
  "run_grid kern [] s = Inr s"
| "run_grid kern ((b, t) # bts) s =
     (case kern b t s of Inl e \<Rightarrow> Inl e | Inr s' \<Rightarrow> run_grid kern bts s')"

definition launch_grid :: "nat \<Rightarrow> nat \<Rightarrow> (nat \<Rightarrow> nat \<Rightarrow> 's \<Rightarrow> fault + 's) \<Rightarrow> 's \<Rightarrow> fault + 's" where
  "launch_grid gridDim blockDim kern s =
     run_grid kern (List.product [0 ..< gridDim] [0 ..< blockDim]) s"

text \<open>
  The loop shared by \<open>kernelMarkBlocks\<close> and \<open>kernelMakeLists\<close>:
  \<^verbatim>\<open>do { if (circleIdx >= numCircles) break; BODY; circleIdx += blockDim.x; j++; }
  while (j < maxIterations);\<close>
  with \<open>blockDim.x = 1024\<close>. \<open>j\<close> stays below \<open>maxIterations\<close> and cannot overflow.
\<close>

function strided_loop ::
    "(int \<Rightarrow> 's \<Rightarrow> fault + 's) \<Rightarrow> int \<Rightarrow> int \<Rightarrow> int \<Rightarrow> int \<Rightarrow> 's \<Rightarrow> fault + 's" where
  "strided_loop body numCircles maxIterations circleIdx j s =
     (if circleIdx \<ge> numCircles then Inr s
      else
        (case body circleIdx s of
           Inl e \<Rightarrow> Inl e
         | Inr s' \<Rightarrow>
             if j + 1 < maxIterations
             then strided_loop body numCircles maxIterations (wrap32 (circleIdx + 1024)) (j + 1) s'
             else Inr s'))"
  by pat_completeness auto
termination
  by (relation "measure (\<lambda>(body, numCircles, maxIterations, circleIdx, j, s). nat (maxIterations - j))")
     auto

declare strided_loop.simps [simp del]

text \<open>\<open>(numCircles + blockDim.x - 1) / blockDim.x\<close>: unsigned arithmetic, stored in an \<open>int\<close>.\<close>

definition maxIterations_of :: "int \<Rightarrow> int" where
  "maxIterations_of numCircles = wrap32 (u32 (u32 (numCircles + 1024) - 1) div 1024)"

subsection \<open>kernelScan2: the chunked shared-memory scan of one tile's hit row\<close>

text \<open>
  Modelled from the spec: \<open>sharedMemExclusiveScan\<close> lives in \<open>exclusiveScan.cu_inl\<close>, which
  is not among the sources. The spec describes it as the single-workgroup exclusive scan
  over \<open>SCAN_BLOCK_DIM\<close> elements: \<open>output[k]\<close> is the sum of \<open>input[0..k-1]\<close>, in
  \<open>unsigned\<close> arithmetic.
\<close>

definition sharedMemExclusiveScan :: "32 word list \<Rightarrow> nat \<Rightarrow> 32 word list" where
  "sharedMemExclusiveScan input sz = map (\<lambda>k. sum_list (take k input)) [0 ..< sz]"

text \<open>
  All threads of a block run the loop of \<open>kernelScan2\<close> in lockstep, because it contains
  \<open>__syncthreads()\<close>: in iteration \<open>j\<close> every thread first stores its element of the hit
  row into shared memory (\<open>scan2_load\<close>), then the block scans the shared array, then every
  thread writes its prefix (\<open>scan2_store\<close>). Thread \<open>threadIdx.x\<close> has
  \<open>i = threadIdx.x + j * SCAN_BLOCK_DIM\<close> in iteration \<open>j\<close>.
\<close>

definition scan2_load ::
    "nat \<Rightarrow> int \<Rightarrow> int list \<Rightarrow> int \<Rightarrow> int \<Rightarrow> 32 word list \<Rightarrow> fault + 32 word list" where
  "scan2_load blockIdx numCircles hitCircles j threadIdx prefixSumInput =
     (let i = wrap32 (threadIdx + j * SCAN_BLOCK_DIM) in
      if i < numCircles then
        (case rd hitCircles (u32 (int blockIdx * numCircles + i)) of
           Inl e \<Rightarrow> Inl e
         | Inr h \<Rightarrow> wr prefixSumInput threadIdx (word_of_int h))
      else Inr prefixSumInput)"

definition scan2_store ::
    "nat \<Rightarrow> int \<Rightarrow> int list \<Rightarrow> 32 word list \<Rightarrow> int \<Rightarrow> int \<Rightarrow> int list \<Rightarrow> fault + int list" where
  "scan2_store blockIdx numCircles hitCircles prefixSumOutput j threadIdx prefixes =
     (let i = wrap32 (threadIdx + j * SCAN_BLOCK_DIM) in
      if i < numCircles then
        (case rd prefixSumOutput threadIdx of
           Inl e \<Rightarrow> Inl e
         | Inr out \<Rightarrow>
             (case wr prefixes (u32 (int blockIdx * numCircles + i)) (sint out) of
                Inl e \<Rightarrow> Inl e
              | Inr p1 \<Rightarrow>
                  if j \<ge> 1 then
                    (let last = u32 (int blockIdx * numCircles + wrap32 (wrap32 (j * SCAN_BLOCK_DIM) - 1)) in
                     case rd p1 last of
                       Inl e \<Rightarrow> Inl e
                     | Inr add0 \<Rightarrow>
                         (let add1 = (if add0 \<ge> 0 then add0 else 0) in
                          case rd hitCircles last of
                            Inl e \<Rightarrow> Inl e
                          | Inr h \<Rightarrow>
                              (let add = (if h = 1 then wrap32 (add1 + 1) else add1) in
                               case rd p1 (u32 (int blockIdx * numCircles + i)) of
                                 Inl e \<Rightarrow> Inl e
                               | Inr cur \<Rightarrow>
                                   wr p1 (u32 (int blockIdx * numCircles + i)) (wrap32 (cur + add)))))
                  else Inr p1))
      else Inr prefixes)"

function scan2_loop ::
    "nat \<Rightarrow> int \<Rightarrow> int list \<Rightarrow> int \<Rightarrow> int \<Rightarrow> 32 word list \<times> int list
       \<Rightarrow> fault + 32 word list \<times> int list" where
  "scan2_loop blockIdx numCircles hitCircles maxIterations j (prefixSumInput, prefixes) =
     (case run_threads (scan2_load blockIdx numCircles hitCircles j) [0 ..< 1024] prefixSumInput of
        Inl e \<Rightarrow> Inl e
      | Inr input1 \<Rightarrow>
          (let prefixSumOutput = sharedMemExclusiveScan input1 1024 in
           case run_threads (scan2_store blockIdx numCircles hitCircles prefixSumOutput j)
                  [0 ..< 1024] prefixes of
             Inl e \<Rightarrow> Inl e
           | Inr prefixes1 \<Rightarrow>
               if j + 1 < maxIterations
               then scan2_loop blockIdx numCircles hitCircles maxIterations (j + 1) (input1, prefixes1)
               else Inr (input1, prefixes1)))"
  by pat_completeness auto
termination
  by (relation "measure (\<lambda>(blockIdx, numCircles, hitCircles, maxIterations, j, s). nat (maxIterations - j))")
     auto

declare scan2_loop.simps [simp del]

text \<open>One block of \<open>kernelScan2\<close>; \<open>shared\<close> is what the block's shared array
  \<open>prefixSumInput\<close> holds when the block starts (it is not initialised).\<close>

definition kernelScan2 ::
    "int list \<Rightarrow> int \<Rightarrow> 32 word list \<Rightarrow> nat \<Rightarrow> int list \<Rightarrow> fault + int list" where
  "kernelScan2 hitCircles numCircles shared blockIdx prefixes =
     (case c_div (wrap32 (wrap32 (numCircles + SCAN_BLOCK_DIM) - 1)) SCAN_BLOCK_DIM of
        Inl e \<Rightarrow> Inl e
      | Inr maxIterations \<Rightarrow>
          (case scan2_loop blockIdx numCircles hitCircles maxIterations 0 (shared, prefixes) of
             Inl e \<Rightarrow> Inl e
           | Inr (input1, prefixes1) \<Rightarrow> Inr prefixes1))"

fun run_blocks :: "(nat \<Rightarrow> 's \<Rightarrow> fault + 's) \<Rightarrow> nat list \<Rightarrow> 's \<Rightarrow> fault + 's" where
  "run_blocks kern [] s = Inr s"
| "run_blocks kern (b # bs) s =
     (case kern b s of Inl e \<Rightarrow> Inl e | Inr s' \<Rightarrow> run_blocks kern bs s')"

definition kernelScan2_launch ::
    "nat \<Rightarrow> int list \<Rightarrow> int \<Rightarrow> (nat \<Rightarrow> 32 word list) \<Rightarrow> int list \<Rightarrow> fault + int list" where
  "kernelScan2_launch numBlocks hitCircles numCircles shared prefixes =
     run_blocks (\<lambda>b. kernelScan2 hitCircles numCircles (shared b) b) [0 ..< numBlocks] prefixes"

subsection \<open>kernelMakeLists: scatter into the per-tile lists\<close>

definition makeLists_body ::
    "nat \<Rightarrow> int \<Rightarrow> int list \<Rightarrow> int list \<Rightarrow> int \<Rightarrow> int list \<Rightarrow> fault + int list" where
  "makeLists_body blockIdx numCircles hitCircles prefixes circleIdx hitCirclesList =
     (let index = wrap32 (u32 (int blockIdx * numCircles + circleIdx)) in
      case rd prefixes index of
        Inl e \<Rightarrow> Inl e
      | Inr idx \<Rightarrow>
          (case rd hitCircles index of
             Inl e \<Rightarrow> Inl e
           | Inr h \<Rightarrow>
               (case (if h = 1 then wr hitCirclesList (u32 (int blockIdx * numCircles + idx)) circleIdx
                      else Inr hitCirclesList) of
                  Inl e \<Rightarrow> Inl e
                | Inr l1 \<Rightarrow>
                    if circleIdx = wrap32 (numCircles - 1) then
                      (if h = 1 \<and> idx < wrap32 (numCircles - 1)
                       then wr l1 (u32 (int blockIdx * numCircles + wrap32 (idx + 1))) (- 1)
                       else if h = 0
                       then wr l1 (u32 (int blockIdx * numCircles + idx)) (- 1)
                       else Inr l1)
                    else Inr l1)))"

definition kernelMakeLists ::
    "int \<Rightarrow> int list \<Rightarrow> int list \<Rightarrow> nat \<Rightarrow> nat \<Rightarrow> int list \<Rightarrow> fault + int list" where
  "kernelMakeLists numCircles hitCircles prefixes blockIdx threadIdx hitCirclesList =
     strided_loop (makeLists_body blockIdx numCircles hitCircles prefixes)
       numCircles (maxIterations_of numCircles) (int threadIdx) 0 hitCirclesList"

definition kernelMakeLists_launch ::
    "nat \<Rightarrow> int \<Rightarrow> int list \<Rightarrow> int list \<Rightarrow> int list \<Rightarrow> fault + int list" where
  "kernelMakeLists_launch numBlocks numCircles hitCircles prefixes hitCirclesList =
     launch_grid numBlocks 1024 (kernelMakeLists numCircles hitCircles prefixes) hitCirclesList"

subsection \<open>Vocabulary for the tile lists\<close>

text \<open>
  \<open>apply_writes\<close> performs a list of array writes in order. \<open>strided c N\<close> lists the circle
  indices \<open>c, c + 1024, ...\<close> below \<open>N\<close> that one thread visits. For tile \<open>t\<close> of a flat
  \<open>numBlocks * N\<close> array: \<open>tile_row N t\<close> is the tile's row, \<open>hitp hit N t c\<close> says that circle
  \<open>c\<close> hits the tile, \<open>hits_before hit N t c\<close> counts the hits among the circles before
  \<open>c\<close>, \<open>tile_hits hit N t\<close> lists the circles that hit, in increasing order.
  \<open>hit_bool\<close> says that the hit matrix holds 0 and 1 only, \<open>prefix_ok\<close> that the prefix matrix
  holds the exclusive hit counts. \<open>makeLists_writes N hit b c\<close> are the writes of one loop
  iteration of \<open>kernelMakeLists\<close> (block \<open>b\<close>, circle \<open>c\<close>).
\<close>

definition apply_writes :: "(nat \<times> 'a) list \<Rightarrow> 'a list \<Rightarrow> 'a list" where
  "apply_writes ws l = fold (\<lambda>(p, v) l. l[p := v]) ws l"

function strided :: "nat \<Rightarrow> nat \<Rightarrow> nat list" where
  "strided c N = (if c \<ge> N then [] else c # strided (c + 1024) N)"
  by pat_completeness auto
termination
  by (relation "measure (\<lambda>(c, N). N - c)") auto

declare strided.simps [simp del]

definition hitp :: "int list \<Rightarrow> nat \<Rightarrow> nat \<Rightarrow> nat \<Rightarrow> bool" where
  "hitp hit N t c \<longleftrightarrow> hit ! (t * N + c) = 1"

definition hits_before :: "int list \<Rightarrow> nat \<Rightarrow> nat \<Rightarrow> nat \<Rightarrow> nat" where
  "hits_before hit N t c = length (filter (hitp hit N t) [0 ..< c])"

definition tile_hits :: "int list \<Rightarrow> nat \<Rightarrow> nat \<Rightarrow> nat list" where
  "tile_hits hit N t = filter (hitp hit N t) [0 ..< N]"

definition prefix_ok :: "nat \<Rightarrow> nat \<Rightarrow> int list \<Rightarrow> int list \<Rightarrow> bool" where
  "prefix_ok nb N hit prefixes \<longleftrightarrow>
     (\<forall>t<nb. \<forall>c<N. prefixes ! (t * N + c) = int (hits_before hit N t c))"

definition hit_bool :: "nat \<Rightarrow> nat \<Rightarrow> int list \<Rightarrow> bool" where
  "hit_bool nb N hit \<longleftrightarrow> (\<forall>t<nb. \<forall>c<N. hit ! (t * N + c) = 0 \<or> hit ! (t * N + c) = 1)"

definition makeLists_writes :: "nat \<Rightarrow> int list \<Rightarrow> nat \<Rightarrow> nat \<Rightarrow> (nat \<times> int) list" where
  "makeLists_writes N hit b c =
     (if hitp hit N b c then [(b * N + hits_before hit N b c, int c)] else []) @
     (if c = N - 1 then
        (if hitp hit N b c \<and> hits_before hit N b c < N - 1
         then [(b * N + (hits_before hit N b c + 1), - 1)]
         else if \<not> hitp hit N b c then [(b * N + hits_before hit N b c, - 1)] else [])
      else [])"

definition makeLists_all_writes :: "nat \<Rightarrow> nat \<Rightarrow> int list \<Rightarrow> (nat \<times> int) list" where
  "makeLists_all_writes nb N hit =
     concat (map (\<lambda>(b, t). concat (map (makeLists_writes N hit b) (strided t N)))
               (List.product [0 ..< nb] [0 ..< 1024]))"

definition tile_row :: "nat \<Rightarrow> nat \<Rightarrow> 'a list \<Rightarrow> 'a list" where
  "tile_row N t xs = take N (drop (t * N) xs)"

subsection \<open>Vocabulary for the scan stage\<close>

text \<open>
  In iteration \<open>j\<close> of \<open>kernelScan2\<close>, thread \<open>t\<close> of block \<open>b\<close> performs the writes
  \<open>load_writes b N hit j t\<close> to shared memory before the scan and the writes
  \<open>store_writes b N hit j t\<close> to \<open>prefixes\<close> after it. \<open>hits_in hit N t a n\<close> counts the
  hits of tile \<open>t\<close> among the circles \<open>a, ..., a + n - 1\<close>. \<open>row_done hit N b m p\<close> says that
  the first \<open>m\<close> entries of row \<open>b\<close> of \<open>p\<close> hold the exclusive hit counts, and
  \<open>rows_kept N b p p'\<close> that \<open>p\<close> and \<open>p'\<close> agree on all rows but \<open>b\<close>.
\<close>

definition load_writes :: "nat \<Rightarrow> nat \<Rightarrow> int list \<Rightarrow> nat \<Rightarrow> nat \<Rightarrow> (nat \<times> 32 word) list" where
  "load_writes b N hit j t =
     (if 1024 * j + t < N then [(t, word_of_int (hit ! (b * N + (1024 * j + t))))] else [])"

definition hits_in :: "int list \<Rightarrow> nat \<Rightarrow> nat \<Rightarrow> nat \<Rightarrow> nat \<Rightarrow> nat" where
  "hits_in hit N t a n = length (filter (hitp hit N t) [a ..< a + n])"

definition store_writes :: "nat \<Rightarrow> nat \<Rightarrow> int list \<Rightarrow> nat \<Rightarrow> nat \<Rightarrow> (nat \<times> int) list" where
  "store_writes b N hit j t =
     (if 1024 * j + t < N then [(b * N + (1024 * j + t), int (hits_before hit N b (1024 * j + t)))] else [])"

definition row_done :: "int list \<Rightarrow> nat \<Rightarrow> nat \<Rightarrow> nat \<Rightarrow> int list \<Rightarrow> bool" where
  "row_done hit N b m p \<longleftrightarrow> (\<forall>c<m. p ! (b * N + c) = int (hits_before hit N b c))"

definition rows_kept :: "nat \<Rightarrow> nat \<Rightarrow> int list \<Rightarrow> int list \<Rightarrow> bool" where
  "rows_kept N b p p' \<longleftrightarrow> (\<forall>b' c. b' \<noteq> b \<and> c < N \<longrightarrow> p' ! (b' * N + c) = p ! (b' * N + c))"

section \<open>Properties of the device-wide scan\<close>

lemma nextPow2_0: "nextPow2 0 = 0"
  by (simp add: nextPow2_def wrap32_def)


subsection \<open>Kernel threads, launches and sweeps\<close>

lemma wrap32_nat: "n < 2147483648 \<Longrightarrow> wrap32 (int n) = int n"
  by (rule wrap32_id) simp_all

lemma rd_nat: "rd xs (int j) = (if j < length xs then Inr (xs ! j) else Inl OutOfBounds)"
  by (simp add: rd_def)

lemma wr_nat: "wr xs (int j) v = (if j < length xs then Inr (xs[j := v]) else Inl OutOfBounds)"
  by (simp add: wr_def)

lemma rd_neg: "i < 0 \<Longrightarrow> rd xs i = Inl OutOfBounds"
  by (simp add: rd_def)

lemma idx_nat:
  assumes "0 < a" "i + a \<le> 1073741824"
  shows "wrap32 (wrap32 (int i + int a) - 1) = int (i + a - 1)"
proof -
  have 1: "wrap32 (int i + int a) = int i + int a"
    using assms by (intro wrap32_id) simp_all
  have 2: "wrap32 (int i + int a - 1) = int i + int a - 1"
    using assms by (intro wrap32_id) simp_all
  show ?thesis using assms by (simp add: 1 2 of_nat_diff)
qed

lemma upsweep_kernel_active:
  assumes t: "0 < t" and fit: "k * (2 * t) + 2 * t \<le> length d" and L: "length d \<le> 1073741824"
  shows "upsweep_kernel (int (length d)) (int t) (int (2 * t)) (int k) d
           = Inr (d[k * (2 * t) + 2 * t - 1 := d ! (k * (2 * t) + 2 * t - 1) + d ! (k * (2 * t) + t - 1)])"
proof -
  have i: "wrap32 (int k * int (2 * t)) = int (k * (2 * t))"
    using fit L by (simp only: of_nat_mult[symmetric]) (rule wrap32_nat, simp)
  have a: "wrap32 (wrap32 (int (k * (2 * t)) + int t) - 1) = int (k * (2 * t) + t - 1)"
    using t fit L by (intro idx_nat) simp_all
  have b: "wrap32 (wrap32 (int (k * (2 * t)) + int (2 * t)) - 1) = int (k * (2 * t) + 2 * t - 1)"
    using t fit L by (intro idx_nat) simp_all
  have lt: "k * (2 * t) < length d" "k * (2 * t) + t - 1 < length d" "k * (2 * t) + 2 * t - 1 < length d"
    using t fit by simp_all
  have guard: "wrap32 (int k * int (2 * t)) < int (length d)"
    by (simp only: i of_nat_less_iff lt)
  show ?thesis
    by (simp only: upsweep_kernel_def Let_def guard if_True) (simp only: i a b rd_nat wr_nat lt if_True sum.case)
qed

lemma downsweep_kernel_active:
  assumes t: "0 < t" and fit: "k * (2 * t) + 2 * t \<le> length d" and L: "length d \<le> 1073741824"
  shows "downsweep_kernel (int (length d)) (int t) (int (2 * t)) (int k) d
           = Inr (d[k * (2 * t) + t - 1 := d ! (k * (2 * t) + 2 * t - 1),
                    k * (2 * t) + 2 * t - 1 := d ! (k * (2 * t) + 2 * t - 1) + d ! (k * (2 * t) + t - 1)])"
proof -
  have i: "wrap32 (int k * int (2 * t)) = int (k * (2 * t))"
    using fit L by (simp only: of_nat_mult[symmetric]) (rule wrap32_nat, simp)
  have a: "wrap32 (wrap32 (int (k * (2 * t)) + int t) - 1) = int (k * (2 * t) + t - 1)"
    using t fit L by (intro idx_nat) simp_all
  have b: "wrap32 (wrap32 (int (k * (2 * t)) + int (2 * t)) - 1) = int (k * (2 * t) + 2 * t - 1)"
    using t fit L by (intro idx_nat) simp_all
  have lt: "k * (2 * t) < length d" "k * (2 * t) + t - 1 < length d" "k * (2 * t) + 2 * t - 1 < length d"
    using t fit by simp_all
  have guard: "wrap32 (int k * int (2 * t)) < int (length d)"
    by (simp only: i of_nat_less_iff lt)
  show ?thesis
    by (simp only: downsweep_kernel_def Let_def guard if_True)
       (simp only: i a b rd_nat wr_nat lt if_True sum.case length_list_update)
qed

lemma kernel_idle:
  assumes "length d \<le> k * t1" "k * t1 < 2147483648"
  shows "upsweep_kernel (int (length d)) t0 (int t1) (int k) d = Inr d"
    and "downsweep_kernel (int (length d)) t0 (int t1) (int k) d = Inr d"
proof -
  have i: "wrap32 (int k * int t1) = int (k * t1)"
    using assms by (simp only: of_nat_mult[symmetric]) (rule wrap32_nat, simp)
  have guard: "\<not> wrap32 (int k * int t1) < int (length d)"
    using assms by (simp only: i of_nat_less_iff)
  show "upsweep_kernel (int (length d)) t0 (int t1) (int k) d = Inr d"
    by (simp only: upsweep_kernel_def Let_def guard if_False)
  show "downsweep_kernel (int (length d)) t0 (int t1) (int k) d = Inr d"
    by (simp only: downsweep_kernel_def Let_def guard if_False)
qed

lemma kernel_wrapped:
  assumes "k * t1 = 2147483648" "0 < t" "t < 1073741824" 
  shows "upsweep_kernel (int (length d)) (int t) (int t1) (int k) d = Inl OutOfBounds"
    and "downsweep_kernel (int (length d)) (int t) (int t1) (int k) d = Inl OutOfBounds"
proof -
  have "int k * int t1 = 2147483648"
    using assms(1) by (simp only: of_nat_mult[symmetric])
  then have i: "wrap32 (int k * int t1) = - 2147483648"
    by (simp add: wrap32_def)
  have 1: "wrap32 (- 2147483648 + int t) = - 2147483648 + int t"
    using assms by (intro wrap32_id) simp_all
  have 2: "wrap32 (- 2147483648 + int t - 1) = - 2147483648 + int t - 1"
    using assms by (intro wrap32_id) simp_all
  have neg: "- 2147483648 + int t - 1 < 0" using assms by simp
  have guard: "wrap32 (int k * int t1) < int (length d)"
    by (simp add: i)
  have r: "rd d (wrap32 (wrap32 (wrap32 (int k * int t1) + int t) - 1)) = Inl OutOfBounds"
    by (simp only: i 1 2 rd_neg[OF neg])
  show "upsweep_kernel (int (length d)) (int t) (int t1) (int k) d = Inl OutOfBounds"
    by (simp only: upsweep_kernel_def Let_def guard if_True r sum.case)
  show "downsweep_kernel (int (length d)) (int t) (int t1) (int k) d = Inl OutOfBounds"
    by (simp only: downsweep_kernel_def Let_def guard if_True r sum.case)
qed

lemma run_threads_append:
  "run_threads kern (xs @ ys) s =
     (case run_threads kern xs s of Inl e \<Rightarrow> Inl e | Inr s' \<Rightarrow> run_threads kern ys s')"
  by (induction xs arbitrary: s) (auto split: sum.splits)

lemma run_threads_idle:
  "(\<And>k. k \<in> set ks \<Longrightarrow> kern (int k) s = Inr s) \<Longrightarrow> run_threads kern ks s = Inr s"
  by (induction ks) auto

lemma run_threads_fault:
  "kern (int k) s = Inl e \<Longrightarrow> run_threads kern (k # ks) s = Inl e"
  by simp

lemma stride_le: "k < m \<Longrightarrow> k * c + c \<le> m * (c::nat)"
  by (metis Suc_leI mult_Suc mult_le_mono1 add.commute)

lemma up_slot_iff:
  assumes "0 < (t::nat)" "j < N * (2 * t)"
  shows "(\<exists>k<N. j = k * (2 * t) + 2 * t - 1) \<longleftrightarrow> (2 * t) dvd (j + 1)"
proof
  assume "\<exists>k<N. j = k * (2 * t) + 2 * t - 1"
  then obtain k where "j = k * (2 * t) + 2 * t - 1" by blast
  with assms have "j + 1 = (k + 1) * (2 * t)" by simp
  then show "(2 * t) dvd (j + 1)" by simp
next
  assume "(2 * t) dvd (j + 1)"
  then obtain q where q: "j + 1 = (2 * t) * q" by (auto simp: dvd_def)
  then have "q \<noteq> 0" by (cases q) auto
  then obtain k where k: "q = Suc k" by (cases q) auto
  from q assms(2) have "(2 * t) * q \<le> (2 * t) * N"
    by (metis Suc_eq_plus1 Suc_leI mult.commute)
  then have "q \<le> N" using assms(1) by simp
  with k have "k < N" by simp
  moreover have "j = k * (2 * t) + 2 * t - 1" using q k by (simp add: algebra_simps)
  ultimately show "\<exists>k<N. j = k * (2 * t) + 2 * t - 1" by blast
qed

lemma down_slot_iff:
  assumes "0 < (t::nat)" "j < N * (2 * t)"
  shows "(\<exists>k<N. j = k * (2 * t) + t - 1) \<longleftrightarrow> t dvd (j + 1) \<and> \<not> (2 * t) dvd (j + 1)"
proof
  assume "\<exists>k<N. j = k * (2 * t) + t - 1"
  then obtain k where "j = k * (2 * t) + t - 1" by blast
  with assms have e: "j + 1 = (2 * k + 1) * t" by (simp add: algebra_simps)
  then have "t dvd (j + 1)" by simp
  moreover have "\<not> (2 * t) dvd (j + 1)"
  proof
    assume "(2 * t) dvd (j + 1)"
    then have "(2 * t) dvd ((2 * k + 1) * t)" using e by simp
    then have "t * 2 dvd t * (2 * k + 1)" by (simp only: mult.commute)
    then have "2 dvd (2 * k + 1)" using assms(1) by (simp only: nat_mult_dvd_cancel_disj) simp
    then show False by presburger
  qed
  ultimately show "t dvd (j + 1) \<and> \<not> (2 * t) dvd (j + 1)" by blast
next
  assume a: "t dvd (j + 1) \<and> \<not> (2 * t) dvd (j + 1)"
  then obtain q where q: "j + 1 = t * q" by (auto simp: dvd_def)
  have "odd q"
  proof (rule ccontr)
    assume "\<not> odd q"
    then obtain r where "q = 2 * r" by (auto elim: evenE)
    with q have "j + 1 = (2 * t) * r" by simp
    then have "(2 * t) dvd (j + 1)" by (metis dvd_triv_left)
    with a show False by blast
  qed
  then obtain k where k: "q = 2 * k + 1" by (auto elim: oddE)
  from q k assms(2) have "t * (2 * k + 1) \<le> t * (2 * N)"
    by (metis Suc_eq_plus1 Suc_leI mult.commute mult.left_commute)
  then have "2 * k + 1 \<le> 2 * N" using assms(1) by (simp only: mult_le_cancel1)
  then have "k < N" by simp
  moreover have "j = k * (2 * t) + t - 1" using q k by (simp add: algebra_simps)
  ultimately show "\<exists>k<N. j = k * (2 * t) + t - 1" by blast
qed

lemma nth_map_upt0: "j < n \<Longrightarrow> map f [0 ..< n] ! j = f j"
  by simp

lemma up_active:
  assumes t: "0 < t" and L: "length d = N * (2 * t)" "length d \<le> 1073741824" and m: "m \<le> N"
  shows "run_threads (upsweep_kernel (int (length d)) (int t) (int (2 * t))) [0 ..< m] d
           = Inr (map (\<lambda>j. if (\<exists>k<m. j = k * (2 * t) + 2 * t - 1) then d ! j + d ! (j - t) else d ! j)
                    [0 ..< length d])"
  using m
proof (induction m)
  case 0
  show ?case by (simp add: map_nth)
next
  case (Suc m)
  let ?s = "map (\<lambda>j. if (\<exists>k<m. j = k * (2 * t) + 2 * t - 1) then d ! j + d ! (j - t) else d ! j)
                [0 ..< length d]"
  let ?j1 = "m * (2 * t) + 2 * t - 1" and ?j0 = "m * (2 * t) + t - 1"
  have len: "length ?s = length d" by simp
  have fit: "m * (2 * t) + 2 * t \<le> length d"
    using Suc.prems L(1) stride_le[of m N "2 * t"] by simp
  have j1: "?j1 < length d" and j0: "?j0 < length d" using fit t by simp_all
  have out: "\<not> (\<exists>k<m. ?j1 = k * (2 * t) + 2 * t - 1)" "\<not> (\<exists>k<m. ?j0 = k * (2 * t) + 2 * t - 1)"
  proof -
    { fix k assume "k < m"
      then have "k * (2 * t) + 2 * t \<le> m * (2 * t)" by (rule stride_le)
      with t have "k * (2 * t) + 2 * t - 1 < ?j0" "k * (2 * t) + 2 * t - 1 < ?j1" by simp_all }
    then show "\<not> (\<exists>k<m. ?j1 = k * (2 * t) + 2 * t - 1)" "\<not> (\<exists>k<m. ?j0 = k * (2 * t) + 2 * t - 1)"
      by (metis less_irrefl)+
  qed
  have s1: "?s ! ?j1 = d ! ?j1" by (simp only: nth_map_upt0[OF j1] out if_False)
  have s0: "?s ! ?j0 = d ! ?j0" by (simp only: nth_map_upt0[OF j0] out if_False)
  have step: "upsweep_kernel (int (length d)) (int t) (int (2 * t)) (int m) ?s
                = Inr (?s[?j1 := d ! ?j1 + d ! ?j0])"
    using upsweep_kernel_active[of t m ?s] t fit L(2) by (simp only: len s1 s0)
  have upd: "?s[?j1 := d ! ?j1 + d ! ?j0]
          = map (\<lambda>j. if (\<exists>k<Suc m. j = k * (2 * t) + 2 * t - 1) then d ! j + d ! (j - t) else d ! j)
              [0 ..< length d]"
  proof (rule nth_equalityI)
    show "length (?s[?j1 := d ! ?j1 + d ! ?j0]) = length (map (\<lambda>j. if (\<exists>k<Suc m. j = k * (2 * t) + 2 * t - 1) then d ! j + d ! (j - t) else d ! j) [0 ..< length d])"
      by simp
  next
    fix j assume "j < length (?s[?j1 := d ! ?j1 + d ! ?j0])"
    then have j: "j < length d" by simp
    have e: "?j1 - t = ?j0" using t by simp
    show "?s[?j1 := d ! ?j1 + d ! ?j0] ! j
            = map (\<lambda>j. if (\<exists>k<Suc m. j = k * (2 * t) + 2 * t - 1) then d ! j + d ! (j - t) else d ! j)
                [0 ..< length d] ! j"
    proof (cases "j = ?j1")
      case True
      then show ?thesis using j e by (auto simp: less_Suc_eq)
    next
      case False
      then show ?thesis using j by (auto simp: less_Suc_eq)
    qed
  qed
  have IH: "run_threads (upsweep_kernel (int (length d)) (int t) (int (2 * t))) [0 ..< m] d = Inr ?s"
    using Suc by simp
  show ?case
    by (simp only: upt_Suc_append[OF le0] run_threads_append IH sum.case run_threads.simps step upd)
qed

lemma down_active:
  assumes t: "0 < t" and L: "length d = N * (2 * t)" "length d \<le> 1073741824" and m: "m \<le> N"
  shows "run_threads (downsweep_kernel (int (length d)) (int t) (int (2 * t))) [0 ..< m] d
           = Inr (map (\<lambda>j. if (\<exists>k<m. j = k * (2 * t) + 2 * t - 1) then d ! j + d ! (j - t)
                          else if (\<exists>k<m. j = k * (2 * t) + t - 1) then d ! (j + t) else d ! j)
                    [0 ..< length d])"
  using m
proof (induction m)
  case 0
  show ?case by (simp add: map_nth)
next
  case (Suc m)
  let ?f = "\<lambda>m j. if (\<exists>k<m. j = k * (2 * t) + 2 * t - 1) then d ! j + d ! (j - t)
                          else if (\<exists>k<m. j = k * (2 * t) + t - 1) then d ! (j + t) else d ! j"
  let ?s = "map (?f m) [0 ..< length d]"
  let ?j1 = "m * (2 * t) + 2 * t - 1" and ?j0 = "m * (2 * t) + t - 1"
  have len: "length ?s = length d" by simp
  have fit: "m * (2 * t) + 2 * t \<le> length d"
    using Suc.prems L(1) stride_le[of m N "2 * t"] by simp
  have j1: "?j1 < length d" and j0: "?j0 < length d" using fit t by simp_all
  have below: "k * (2 * t) + 2 * t - 1 < ?j0 \<and> k * (2 * t) + 2 * t - 1 < ?j1
             \<and> k * (2 * t) + t - 1 < ?j0 \<and> k * (2 * t) + t - 1 < ?j1" if "k < m" for k
  proof -
    from that have "k * (2 * t) + 2 * t \<le> m * (2 * t)" by (rule stride_le)
    with t show ?thesis by linarith
  qed
  have out: "\<not> (\<exists>k<m. ?j1 = k * (2 * t) + 2 * t - 1)" "\<not> (\<exists>k<m. ?j0 = k * (2 * t) + 2 * t - 1)"
            "\<not> (\<exists>k<m. ?j1 = k * (2 * t) + t - 1)" "\<not> (\<exists>k<m. ?j0 = k * (2 * t) + t - 1)"
    using below by (metis less_irrefl)+
  have s1: "?s ! ?j1 = d ! ?j1" by (simp only: nth_map_upt0[OF j1] out if_False)
  have s0: "?s ! ?j0 = d ! ?j0" by (simp only: nth_map_upt0[OF j0] out if_False)
  have step: "downsweep_kernel (int (length d)) (int t) (int (2 * t)) (int m) ?s
                = Inr (?s[?j0 := d ! ?j1, ?j1 := d ! ?j1 + d ! ?j0])"
    using downsweep_kernel_active[of t m ?s] t fit L(2) by (simp only: len s1 s0)
  have upd: "?s[?j0 := d ! ?j1, ?j1 := d ! ?j1 + d ! ?j0] = map (?f (Suc m)) [0 ..< length d]"
  proof (rule nth_equalityI)
    show "length (?s[?j0 := d ! ?j1, ?j1 := d ! ?j1 + d ! ?j0]) = length (map (?f (Suc m)) [0 ..< length d])"
      by simp
  next
    fix j assume "j < length (?s[?j0 := d ! ?j1, ?j1 := d ! ?j1 + d ! ?j0])"
    then have j: "j < length d" by simp
    have e: "?j1 - t = ?j0" "?j0 + t = ?j1" "?j0 \<noteq> ?j1" using t by simp_all
    have lhs: "?s[?j0 := d ! ?j1, ?j1 := d ! ?j1 + d ! ?j0] ! j
                 = (if j = ?j1 then d ! ?j1 + d ! ?j0 else if j = ?j0 then d ! ?j1 else ?f m j)"
      using j j0 j1 by (simp only: nth_list_update length_list_update len nth_map_upt0[OF j]) auto
    have rhs: "map (?f (Suc m)) [0 ..< length d] ! j = ?f (Suc m) j"
      by (rule nth_map_upt0[OF j])
    have "(if j = ?j1 then d ! ?j1 + d ! ?j0 else if j = ?j0 then d ! ?j1 else ?f m j) = ?f (Suc m) j"
    proof (cases "j = ?j1")
      case True
      then show ?thesis using e by (auto simp: less_Suc_eq)
    next
      case n1: False
      show ?thesis
      proof (cases "j = ?j0")
        case True
        have "\<not> (\<exists>k<Suc m. ?j0 = k * (2 * t) + 2 * t - 1)"
          using out(2) e(3) by (auto simp: less_Suc_eq)
        moreover have "\<exists>k<Suc m. ?j0 = k * (2 * t) + t - 1" by blast
        ultimately show ?thesis using True e(2,3) by (simp only: if_True if_False) simp
      next
        case False
        with n1 show ?thesis by (auto simp: less_Suc_eq)
      qed
    qed
    with lhs rhs show "?s[?j0 := d ! ?j1, ?j1 := d ! ?j1 + d ! ?j0] ! j = map (?f (Suc m)) [0 ..< length d] ! j"
      by simp
  qed
  have IH: "run_threads (downsweep_kernel (int (length d)) (int t) (int (2 * t))) [0 ..< m] d = Inr ?s"
    using Suc by simp
  show ?case
    by (simp only: upt_Suc_append[OF le0] run_threads_append IH sum.case run_threads.simps step upd)
qed

lemma tail_threads:
  assumes idle: "\<And>k. length s \<le> k * t1 \<Longrightarrow> k * t1 < 2147483648 \<Longrightarrow> kern (int k) s = Inr s"
    and wrapped: "\<And>k. k * t1 = 2147483648 \<Longrightarrow> kern (int k) s = Inl OutOfBounds"
    and t1: "t1 = 2 ^ e1" "e1 \<le> 30"
    and L: "length s = N * t1" "length s \<le> 1073741824" and NT: "N \<le> T" "0 < T"
  shows "run_threads kern [N ..< T] s = (if (T - 1) * t1 < 2147483648 then Inr s else Inl OutOfBounds)"
proof (cases "(T - 1) * t1 < 2147483648")
  case True
  have "kern (int k) s = Inr s" if "k \<in> set [N ..< T]" for k
  proof (rule idle)
    from that have k: "N \<le> k" "k \<le> T - 1" by auto
    from k(1) show "length s \<le> k * t1" unfolding L(1) by (rule mult_le_mono1)
    from k(2) have "k * t1 \<le> (T - 1) * t1" by (rule mult_le_mono1)
    with True show "k * t1 < 2147483648" by linarith
  qed
  then have "run_threads kern [N ..< T] s = Inr s" by (rule run_threads_idle)
  with True show ?thesis by simp
next
  case False
  define k0 :: nat where "k0 = 2 ^ (31 - e1)"
  have k0: "k0 * t1 = 2147483648"
  proof -
    have "k0 * t1 = 2 ^ (31 - e1 + e1)" unfolding k0_def t1(1) by (simp only: power_add)
    also have "\<dots> = (2::nat) ^ 31" using t1(2) by simp
    finally show ?thesis by simp
  qed
  have "N * t1 < k0 * t1" using L k0 by linarith
  then have Nk: "N \<le> k0" by (simp add: mult_less_cancel2)
  have "k0 * t1 \<le> (T - 1) * t1" using False k0 by linarith
  then have "k0 \<le> T - 1" using t1(1) by (simp add: mult_le_cancel2)
  with NT have kT: "k0 < T" by simp
  have split: "[N ..< T] = [N ..< k0] @ k0 # [Suc k0 ..< T]"
    using Nk kT by (metis le_add_diff_inverse less_imp_le_nat upt_add_eq_append upt_conv_Cons)
  have "kern (int k) s = Inr s" if "k \<in> set [N ..< k0]" for k
  proof (rule idle)
    from that have k: "N \<le> k" "k < k0" by auto
    from k(1) show "length s \<le> k * t1" unfolding L(1) by (rule mult_le_mono1)
    have "0 < t1" using t1(1) by simp
    with k(2) have "k * t1 < k0 * t1" by (simp add: mult_less_cancel2)
    with k0 show "k * t1 < 2147483648" by linarith
  qed
  then have pre: "run_threads kern [N ..< k0] s = Inr s" by (rule run_threads_idle)
  have w: "kern (int k0) s = Inl OutOfBounds" using k0 by (rule wrapped)
  have "run_threads kern [N ..< T] s = Inl OutOfBounds"
    by (simp only: split run_threads_append pre sum.case run_threads.simps w)
  with False show ?thesis by simp
qed

lemma c_div_nat:
  assumes "0 < b" "a < 2147483648"
  shows "c_div (int a) (int b) = Inr (int (a div b))"
proof -
  have "sgn (int a) * sgn (int b) * (\<bar>int a\<bar> div \<bar>int b\<bar>) = int (a div b)"
    using assms by (cases "a = 0") (simp_all add: zdiv_int)
  moreover have "a div b < 2147483648" using assms(2) by (meson div_le_dividend le_less_trans)
  ultimately show ?thesis using assms(1) by (simp add: c_div_def wrap32_nat)
qed

lemma num_blocks_nat:
  assumes "0 < t1" "L \<le> 1073741824"
  shows "num_blocks (int L) (int t1) = Inr (int ((L div t1 + 511) div 512))"
proof -
  have N: "L div t1 \<le> 1073741824" using assms(2) by (meson div_le_dividend le_trans)
  have 1: "c_div (int L) (int t1) = Inr (int (L div t1))"
    using assms by (intro c_div_nat) simp_all
  have "wrap32 (int (L div t1) + 512) = int (L div t1) + 512"
    using N by (intro wrap32_id) simp_all
  moreover have "wrap32 (int (L div t1) + 512 - 1) = int (L div t1) + 512 - 1"
    using N by (intro wrap32_id) simp_all
  ultimately have 2: "wrap32 (wrap32 (int (L div t1) + threadsPerBlock) - 1) = int (L div t1 + 511)"
    by (simp add: threadsPerBlock_def)
  have 3: "c_div (int (L div t1 + 511)) threadsPerBlock = Inr (int ((L div t1 + 511) div 512))"
    using c_div_nat[of 512 "L div t1 + 511"] N by (simp add: threadsPerBlock_def)
  show ?thesis by (simp only: num_blocks_def 1 2 3 sum.case)
qed

lemma launch_nat:
  "launch (int B) threadsPerBlock kern s = run_threads kern [0 ..< B * 512] s"
proof -
  have "nat (int B * 512) = B * 512" by (simp add: nat_mult_distrib)
  then show ?thesis by (simp add: launch_def threadsPerBlock_def)
qed

lemma threads_cover: "(N::nat) \<le> (N + 511) div 512 * 512"
proof -
  have "(N + 511) div 512 * 512 + (N + 511) mod 512 = N + 511" by simp
  moreover have "(N + 511) mod 512 < 512" by simp
  ultimately show ?thesis by linarith
qed

lemma upsweep_launch:
  assumes t: "t = 2 ^ e" "e \<le> 29" and L: "length d = N * (2 * t)" "length d \<le> 1073741824" "0 < N"
  shows "(case num_blocks (int (length d)) (int (2 * t)) of
            Inl x \<Rightarrow> Inl x
          | Inr blocks \<Rightarrow>
              launch blocks threadsPerBlock (upsweep_kernel (int (length d)) (int t) (int (2 * t))) d)
         = (if launch_fits (length d) (2 * t) then Inr (upsweep_pass t d) else Inl OutOfBounds)"
proof -
  let ?kern = "upsweep_kernel (int (length d)) (int t) (int (2 * t))"
  let ?T = "(length d div (2 * t) + 511) div 512 * 512"
  have tpos: "0 < t" using t(1) by simp
  have N: "length d div (2 * t) = N" using L(1) tpos by simp
  have NT: "N \<le> ?T" unfolding N by (rule threads_cover)
  have Tpos: "0 < ?T" using NT L(3) by linarith
  have act: "run_threads ?kern [0 ..< N] d = Inr (upsweep_pass t d)"
  proof -
    have "map (\<lambda>j. if (\<exists>k<N. j = k * (2 * t) + 2 * t - 1) then d ! j + d ! (j - t) else d ! j)
            [0 ..< length d] = upsweep_pass t d"
      unfolding upsweep_pass_def
    proof (rule map_cong[OF refl])
      fix x assume "x \<in> set [0 ..< length d]"
      then have "x < N * (2 * t)" using L(1) by simp
      from up_slot_iff[OF tpos this]
      show "(if \<exists>k<N. x = k * (2 * t) + 2 * t - 1 then d ! x + d ! (x - t) else d ! x)
              = (if 2 * t dvd x + 1 then d ! x + d ! (x - t) else d ! x)"
        by (simp only:)
    qed
    with up_active[OF tpos L(1,2) le_refl] show ?thesis by simp
  qed
  have len: "length (upsweep_pass t d) = length d" by (simp add: upsweep_pass_def)
  have t1: "2 * t = 2 ^ Suc e" "Suc e \<le> 30" using t by simp_all
  have tl: "t < 1073741824"
  proof -
    have "(2::nat) ^ e \<le> 2 ^ 29" using t(2) by (intro power_increasing) simp_all
    then show ?thesis using t(1) by simp
  qed
  have tail: "run_threads ?kern [N ..< ?T] (upsweep_pass t d)
                = (if (?T - 1) * (2 * t) < 2147483648 then Inr (upsweep_pass t d) else Inl OutOfBounds)"
  proof (rule tail_threads[OF _ _ t1 _ _ NT Tpos])
    fix k assume "length (upsweep_pass t d) \<le> k * (2 * t)" "k * (2 * t) < 2147483648"
    then show "?kern (int k) (upsweep_pass t d) = Inr (upsweep_pass t d)"
      using kernel_idle(1)[of "upsweep_pass t d" k "2 * t" "int t"] by (simp only: len)
  next
    fix k assume "k * (2 * t) = 2147483648"
    then show "?kern (int k) (upsweep_pass t d) = Inl OutOfBounds"
      using kernel_wrapped(1)[of k "2 * t" t "upsweep_pass t d"] tpos tl by (simp only: len)
  next
    show "length (upsweep_pass t d) = N * (2 * t)" using L(1) len by simp
    show "length (upsweep_pass t d) \<le> 1073741824" using L(2) len by simp
  qed
  have split: "[0 ..< ?T] = [0 ..< N] @ [N ..< ?T]"
    using NT by (metis le_add_diff_inverse upt_add_eq_append le0)
  have nb: "num_blocks (int (length d)) (int (2 * t)) = Inr (int ((length d div (2 * t) + 511) div 512))"
    using tpos L(2) by (intro num_blocks_nat) simp_all
  show ?thesis
    by (simp only: nb sum.case launch_nat split run_threads_append act tail launch_fits_def)
qed

lemma downsweep_launch:
  assumes t: "t = 2 ^ e" "e \<le> 29" and L: "length d = N * (2 * t)" "length d \<le> 1073741824" "0 < N"
  shows "(case num_blocks (int (length d)) (int (2 * t)) of
            Inl x \<Rightarrow> Inl x
          | Inr blocks \<Rightarrow>
              launch blocks threadsPerBlock (downsweep_kernel (int (length d)) (int t) (int (2 * t))) d)
         = (if launch_fits (length d) (2 * t) then Inr (downsweep_pass t d) else Inl OutOfBounds)"
proof -
  let ?kern = "downsweep_kernel (int (length d)) (int t) (int (2 * t))"
  let ?T = "(length d div (2 * t) + 511) div 512 * 512"
  have tpos: "0 < t" using t(1) by simp
  have N: "length d div (2 * t) = N" using L(1) tpos by simp
  have NT: "N \<le> ?T" unfolding N by (rule threads_cover)
  have Tpos: "0 < ?T" using NT L(3) by linarith
  have act: "run_threads ?kern [0 ..< N] d = Inr (downsweep_pass t d)"
  proof -
    have "map (\<lambda>j. if (\<exists>k<N. j = k * (2 * t) + 2 * t - 1) then d ! j + d ! (j - t)
                    else if (\<exists>k<N. j = k * (2 * t) + t - 1) then d ! (j + t) else d ! j)
            [0 ..< length d] = downsweep_pass t d"
      unfolding downsweep_pass_def
    proof (rule map_cong[OF refl])
      fix x assume "x \<in> set [0 ..< length d]"
      then have x: "x < N * (2 * t)" using L(1) by simp
      show "(if \<exists>k<N. x = k * (2 * t) + 2 * t - 1 then d ! x + d ! (x - t)
             else if \<exists>k<N. x = k * (2 * t) + t - 1 then d ! (x + t) else d ! x)
              = (if 2 * t dvd x + 1 then d ! x + d ! (x - t)
                 else if t dvd x + 1 then d ! (x + t) else d ! x)"
        by (simp only: up_slot_iff[OF tpos x] down_slot_iff[OF tpos x]) simp
    qed
    with down_active[OF tpos L(1,2) le_refl] show ?thesis by simp
  qed
  have len: "length (downsweep_pass t d) = length d" by (simp add: downsweep_pass_def)
  have t1: "2 * t = 2 ^ Suc e" "Suc e \<le> 30" using t by simp_all
  have tl: "t < 1073741824"
  proof -
    have "(2::nat) ^ e \<le> 2 ^ 29" using t(2) by (intro power_increasing) simp_all
    then show ?thesis using t(1) by simp
  qed
  have tail: "run_threads ?kern [N ..< ?T] (downsweep_pass t d)
                = (if (?T - 1) * (2 * t) < 2147483648 then Inr (downsweep_pass t d) else Inl OutOfBounds)"
  proof (rule tail_threads[OF _ _ t1 _ _ NT Tpos])
    fix k assume "length (downsweep_pass t d) \<le> k * (2 * t)" "k * (2 * t) < 2147483648"
    then show "?kern (int k) (downsweep_pass t d) = Inr (downsweep_pass t d)"
      using kernel_idle(2)[of "downsweep_pass t d" k "2 * t" "int t"] by (simp only: len)
  next
    fix k assume "k * (2 * t) = 2147483648"
    then show "?kern (int k) (downsweep_pass t d) = Inl OutOfBounds"
      using kernel_wrapped(2)[of k "2 * t" t "downsweep_pass t d"] tpos tl by (simp only: len)
  next
    show "length (downsweep_pass t d) = N * (2 * t)" using L(1) len by simp
    show "length (downsweep_pass t d) \<le> 1073741824" using L(2) len by simp
  qed
  have split: "[0 ..< ?T] = [0 ..< N] @ [N ..< ?T]"
    using NT by (metis le_add_diff_inverse upt_add_eq_append le0)
  have nb: "num_blocks (int (length d)) (int (2 * t)) = Inr (int ((length d div (2 * t) + 511) div 512))"
    using tpos L(2) by (intro num_blocks_nat) simp_all
  show ?thesis
    by (simp only: nb sum.case launch_nat split run_threads_append act tail launch_fits_def)
qed

lemma blk_dvd: "2 ^ e dvd m \<Longrightarrow> blk e m = 2 ^ e"
  by (cases e) simp_all

lemma blk_le: "0 < m \<Longrightarrow> blk e m \<le> m"
  by (induction e) (auto dest: dvd_imp_le)

lemma seg_concat: "a \<le> b \<Longrightarrow> b \<le> c \<Longrightarrow> seg d a b + seg d b c = seg d a c"
  unfolding seg_def by (rule sum.atLeastLessThan_concat)

lemma seg_prefix: "j \<le> length d \<Longrightarrow> seg d 0 j = sum_list (take j d)"
proof -
  assume j: "j \<le> length d"
  have "sum_list (take j d) = (\<Sum>i = 0 ..< length (take j d). take j d ! i)"
    by (rule sum_list_sum_nth)
  also have "\<dots> = (\<Sum>i = 0 ..< j. d ! i)" using j by (intro sum.cong) simp_all
  finally show ?thesis by (simp add: seg_def)
qed

lemma up_inv_init: "up_inv 0 d d"
  by (simp add: up_inv_def seg_def)

lemma pow2_dvd_Suc: "(2::nat) ^ Suc e dvd m \<Longrightarrow> 2 ^ e dvd m"
proof -
  assume "(2::nat) ^ Suc e dvd m"
  moreover have "(2::nat) ^ e dvd 2 ^ Suc e" by simp
  ultimately show ?thesis by (rule dvd_trans[rotated])
qed

lemma up_inv_pass:
  assumes inv: "up_inv e d0 u" and t: "t = 2 ^ e"
  shows "up_inv (Suc e) d0 (upsweep_pass t u)"
  unfolding up_inv_def
proof (intro conjI allI impI)
  show "length (upsweep_pass t u) = length d0" using inv by (simp add: upsweep_pass_def up_inv_def)
next
  fix j assume j: "j < length d0"
  have lu: "length u = length d0" and U: "\<And>i. i < length d0 \<Longrightarrow> u ! i = seg d0 (i + 1 - blk e (i + 1)) (i + 1)"
    using inv by (simp_all add: up_inv_def)
  have nth: "upsweep_pass t u ! j = (if (2 * t) dvd (j + 1) then u ! j + u ! (j - t) else u ! j)"
    using j lu by (simp add: upsweep_pass_def)
  show "upsweep_pass t u ! j = seg d0 (j + 1 - blk (Suc e) (j + 1)) (j + 1)"
  proof (cases "2 ^ Suc e dvd (j + 1)")
    case True
    then have d2: "(2 * t) dvd (j + 1)" using t by simp
    from True have d1: "2 ^ e dvd (j + 1)" by (rule pow2_dvd_Suc)
    have ge: "2 * t \<le> j + 1" using d2 by (auto dest: dvd_imp_le)
    have tpos: "0 < t" using t by simp
    have eq: "j - t + 1 = j + 1 - t" using ge tpos by simp
    have "2 ^ e dvd (j + 1 - t)" using d1 t by (simp add: dvd_diff_nat)
    then have "blk e (j + 1 - t) = 2 ^ e" by (rule blk_dvd)
    moreover have "blk e (j - t + 1) = blk e (j + 1 - t)" using eq by (rule arg_cong)
    ultimately have b0: "blk e (j - t + 1) = t" using t by simp
    have b1: "blk e (j + 1) = t" using d1 t by (simp add: blk_dvd)
    have "u ! j = seg d0 (j + 1 - t) (j + 1)" using U[OF j] b1 by simp
    moreover have "u ! (j - t) = seg d0 (j + 1 - 2 * t) (j + 1 - t)"
    proof -
      have "j - t < length d0" using j by simp
      from U[OF this] b0 have "u ! (j - t) = seg d0 (j - t + 1 - t) (j - t + 1)" by simp
      moreover have "j - t + 1 - t = j + 1 - 2 * t" "j - t + 1 = j + 1 - t" using ge tpos by simp_all
      ultimately show ?thesis by simp
    qed
    moreover have "seg d0 (j + 1 - 2 * t) (j + 1 - t) + seg d0 (j + 1 - t) (j + 1) = seg d0 (j + 1 - 2 * t) (j + 1)"
      by (rule seg_concat) simp_all
    ultimately have "u ! j + u ! (j - t) = seg d0 (j + 1 - 2 * t) (j + 1)"
      by (simp add: add.commute)
    moreover have "blk (Suc e) (j + 1) = 2 * t" using True t by simp
    ultimately show ?thesis using nth d2 by simp
  next
    case False
    then have "\<not> (2 * t) dvd (j + 1)" using t by simp
    moreover have "blk (Suc e) (j + 1) = blk e (j + 1)" using False by simp
    ultimately show ?thesis using nth U[OF j] by simp
  qed
qed

lemma down_inv_init:
  assumes inv: "up_inv K d0 u" and L: "length d0 = 2 ^ K"
  shows "down_inv K d0 (u[2 ^ K - 1 := 0])"
  unfolding down_inv_def
proof (intro conjI allI impI)
  show "length (u[2 ^ K - 1 := 0]) = length d0" using inv by (simp add: up_inv_def)
next
  fix j assume j: "j < length d0"
  have lu: "length u = length d0" and U: "u ! j = seg d0 (j + 1 - blk K (j + 1)) (j + 1)"
    using inv j by (simp_all add: up_inv_def)
  have iff: "2 ^ K dvd (j + 1) \<longleftrightarrow> j = 2 ^ K - 1"
  proof
    assume "2 ^ K dvd (j + 1)"
    then have "2 ^ K \<le> j + 1" by (auto dest: dvd_imp_le)
    with j L show "j = 2 ^ K - 1" by simp
  next
    assume "j = 2 ^ K - 1"
    then show "2 ^ K dvd (j + 1)" by simp
  qed
  show "u[2 ^ K - 1 := 0] ! j = (if 2 ^ K dvd (j + 1) then seg d0 0 (j + 1 - 2 ^ K)
                               else seg d0 (j + 1 - blk K (j + 1)) (j + 1))"
  proof (cases "j = 2 ^ K - 1")
    case True
    then show ?thesis using j lu iff by (simp add: seg_def)
  next
    case False
    then show ?thesis using U iff by simp
  qed
qed

lemma down_inv_final:
  assumes "down_inv 0 d0 w"
  shows "w = map (\<lambda>j. sum_list (take j d0)) [0 ..< length d0]"
proof (rule nth_equalityI)
  show "length w = length (map (\<lambda>j. sum_list (take j d0)) [0 ..< length d0])"
    using assms by (simp add: down_inv_def)
next
  fix j assume "j < length w"
  then have j: "j < length d0" using assms by (simp add: down_inv_def)
  then have "w ! j = seg d0 0 j" using assms by (simp add: down_inv_def)
  also have "\<dots> = sum_list (take j d0)" using j by (intro seg_prefix) simp
  finally show "w ! j = map (\<lambda>j. sum_list (take j d0)) [0 ..< length d0] ! j" using j by simp
qed

lemma down_inv_pass:
  assumes inv: "down_inv (Suc e) d0 w" and t: "t = 2 ^ e" and L: "length d0 = N * (2 * t)"
  shows "down_inv e d0 (downsweep_pass t w)"
  unfolding down_inv_def
proof (intro conjI allI impI)
  show "length (downsweep_pass t w) = length d0" using inv by (simp add: downsweep_pass_def down_inv_def)
next
  fix j assume j: "j < length d0"
  have lw: "length w = length d0"
    and W: "\<And>i. i < length d0 \<Longrightarrow> w ! i = (if 2 ^ Suc e dvd (i + 1) then seg d0 0 (i + 1 - 2 ^ Suc e)
                               else seg d0 (i + 1 - blk (Suc e) (i + 1)) (i + 1))"
    using inv by (simp_all add: down_inv_def)
  have tpos: "0 < t" using t by simp
  have t2: "2 ^ Suc e = 2 * t" using t by simp
  have nth: "downsweep_pass t w ! j = (if (2 * t) dvd (j + 1) then w ! j + w ! (j - t)
               else if t dvd (j + 1) then w ! (j + t) else w ! j)"
    using j lw by (simp add: downsweep_pass_def)
  show "downsweep_pass t w ! j = (if 2 ^ e dvd (j + 1) then seg d0 0 (j + 1 - 2 ^ e)
                               else seg d0 (j + 1 - blk e (j + 1)) (j + 1))"
  proof (cases "(2 * t) dvd (j + 1)")
    case True
    then have d1: "t dvd (j + 1)" by (metis dvd_mult_right)
    have ge: "2 * t \<le> j + 1" using True by (auto dest: dvd_imp_le)
    have eq: "j - t + 1 = j + 1 - t" using ge tpos by simp
    have nd: "\<not> (2 * t) dvd (j + 1 - t)"
    proof
      assume "(2 * t) dvd (j + 1 - t)"
      with True have "(2 * t) dvd ((j + 1) - (j + 1 - t))" by (rule dvd_diff_nat)
      moreover have "(j + 1) - (j + 1 - t) = t" using ge by simp
      ultimately have "(2 * t) dvd t" by simp
      then have "2 * t \<le> t" using tpos by (auto dest: dvd_imp_le)
      with tpos show False by simp
    qed
    have d0: "2 ^ e dvd (j + 1 - t)" using d1 t by (simp add: dvd_diff_nat)
    have wj: "w ! j = seg d0 0 (j + 1 - 2 * t)" using W[OF j] True t2 by simp
    have "j - t < length d0" using j by simp
    from W[OF this] have 1: "w ! (j - t) = seg d0 (j + 1 - t - blk (Suc e) (j + 1 - t)) (j + 1 - t)"
      using nd by (simp only: eq t2 if_False)
    have "blk (Suc e) (j + 1 - t) = blk e (j + 1 - t)" using nd t2 by simp
    moreover have "blk e (j + 1 - t) = 2 ^ e" using d0 by (rule blk_dvd)
    ultimately have b: "blk (Suc e) (j + 1 - t) = t" using t by (simp only:)
    have 2: "j + 1 - t - t = j + 1 - 2 * t" by simp
    have wjt: "w ! (j - t) = seg d0 (j + 1 - 2 * t) (j + 1 - t)" using 1 by (simp only: b 2)
    have "seg d0 0 (j + 1 - 2 * t) + seg d0 (j + 1 - 2 * t) (j + 1 - t) = seg d0 0 (j + 1 - t)"
      by (rule seg_concat) simp_all
    with wj wjt have "w ! j + w ! (j - t) = seg d0 0 (j + 1 - t)" by simp
    then show ?thesis using nth True d1 t by simp
  next
    case n2: False
    show ?thesis
    proof (cases "t dvd (j + 1)")
      case True
      obtain q where q: "j + 1 = t * q" using True by (auto simp: dvd_def)
      have "odd q"
      proof (rule ccontr)
        assume "\<not> odd q"
        then obtain r where "q = 2 * r" by (auto elim: evenE)
        with q have "j + 1 = (2 * t) * r" by simp
        then have "(2 * t) dvd (j + 1)" by (metis dvd_triv_left)
        with n2 show False by blast
      qed
      then obtain k where k: "q = 2 * k + 1" by (auto elim: oddE)
      have e1: "j + t + 1 = (2 * t) * (k + 1)" using q k by (simp add: algebra_simps)
      then have d2: "(2 * t) dvd (j + t + 1)" by (metis dvd_triv_left)
      have "t * (2 * k + 1) \<le> t * (2 * N)" using j q k L by (simp add: algebra_simps)
      then have "2 * k + 1 \<le> 2 * N" using tpos by (simp only: mult_le_cancel1)
      then have "k + 1 \<le> N" by simp
      then have "(2 * t) * (k + 1) \<le> (2 * t) * N" by (rule mult_le_mono2)
      then have "j + t + 1 \<le> length d0" using e1 L by (simp add: mult.commute)
      then have "j + t < length d0" by simp
      from W[OF this] d2 t2 have "w ! (j + t) = seg d0 0 (j + t + 1 - 2 * t)" by simp
      moreover have "j + t + 1 - 2 * t = j + 1 - t" by simp
      ultimately have "w ! (j + t) = seg d0 0 (j + 1 - t)" by simp
      then show ?thesis using nth n2 True t by simp
    next
      case False
      have "\<not> 2 ^ Suc e dvd (j + 1)" using n2 t2 by simp
      then have "w ! j = seg d0 (j + 1 - blk e (j + 1)) (j + 1)" using W[OF j] by simp
      then show ?thesis using nth n2 False t by simp
    qed
  qed
qed

lemma up_fits_step: "e < K \<Longrightarrow> up_fits K e \<longleftrightarrow> launch_fits (2 ^ K) (2 ^ Suc e) \<and> up_fits K (Suc e)"
  unfolding up_fits_def by (metis Suc_leI le_eq_less_or_eq Suc_leD)

lemma up_fits_done: "up_fits K K"
  unfolding up_fits_def by auto

lemma down_fits_step: "down_fits K (Suc e) \<longleftrightarrow> launch_fits (2 ^ K) (2 ^ Suc (Suc e)) \<and> down_fits K e"
  unfolding down_fits_def by (metis le_Suc_eq)

lemma down_fits_0: "down_fits K 0 \<longleftrightarrow> launch_fits (2 ^ K) (2 ^ Suc 0)"
  by (simp add: down_fits_def)

lemma pow2_bound: "e \<le> K \<Longrightarrow> K \<le> 30 \<Longrightarrow> (2::nat) ^ e \<le> 1073741824"
proof -
  assume "e \<le> K" "K \<le> 30"
  then have "(2::nat) ^ e \<le> 2 ^ 30" by (intro power_increasing) simp_all
  then show ?thesis by simp
qed

lemma pow2_split: "e < K \<Longrightarrow> (2::nat) ^ K = 2 ^ (K - Suc e) * (2 * 2 ^ e)"
proof -
  assume "e < K"
  then have "K = (K - Suc e) + Suc e" by simp
  then have "(2::nat) ^ K = 2 ^ (K - Suc e) * 2 ^ Suc e" by (metis power_add)
  then show ?thesis by simp
qed

lemma upsweep_loop_pow2:
  assumes "e \<le> K" "K \<le> 30" "length d = 2 ^ K" "up_inv e d0 d"
  shows "\<exists>u. up_inv K d0 u \<and>
             upsweep_loop (int (length d)) (int (2 ^ e)) d
               = (if up_fits K e then Inr u else Inl OutOfBounds)"
  using assms
proof (induction "K - e" arbitrary: e d)
  case 0
  then have e: "e = K" by simp
  have "upsweep_loop (int (length d)) (int (2 ^ e)) d = Inr d"
    by (subst upsweep_loop.simps) (simp add: e 0)
  with 0 e show ?case by (auto simp: up_fits_done)
next
  case (Suc n)
  then have eK: "e < K" by simp
  let ?t = "(2::nat) ^ e"
  have lt: "int ?t < int (length d)"
    using eK Suc.prems(3) by (simp only: of_nat_less_iff) simp
  have "2 * ?t \<le> 1073741824" using pow2_bound[of "Suc e" K] eK Suc.prems(2) by simp
  then have "wrap32 (int (2 * ?t)) = int (2 * ?t)" by (intro wrap32_nat) simp
  moreover have "int ?t * 2 = int (2 * ?t)" by simp
  ultimately have tw: "wrap32 (int ?t * 2) = int (2 * ?t)" by (simp only:)
  have e29: "e \<le> 29" using eK Suc.prems(2) by simp
  have L: "length d = 2 ^ (K - Suc e) * (2 * ?t)" "length d \<le> 1073741824" "0 < (2::nat) ^ (K - Suc e)"
    using Suc.prems(3) pow2_split[OF eK] pow2_bound[of K K] Suc.prems(2) by simp_all
  note lvl = upsweep_launch[OF refl e29 L]
  have unf: "upsweep_loop (int (length d)) (int ?t) d =
          (case (if launch_fits (length d) (2 * ?t) then Inr (upsweep_pass ?t d) else Inl OutOfBounds) of
             Inl x \<Rightarrow> Inl x
           | Inr d' \<Rightarrow> upsweep_loop (int (length d)) (int (2 * ?t)) d')"
    apply (subst upsweep_loop.simps)
    apply (simp only: lt if_True Let_def tw)
    apply (simp only: lvl[symmetric])
    apply (cases "num_blocks (int (length d)) (int (2 * 2 ^ e))")
     apply simp_all
    done
  show ?case
  proof (cases "launch_fits (length d) (2 * ?t)")
    case False
    then have "\<not> up_fits K e" using up_fits_step[OF eK] Suc.prems(3) by simp
    moreover have "upsweep_loop (int (length d)) (int ?t) d = Inl OutOfBounds" using unf False by simp
    moreover obtain u where "up_inv K d0 u"
    proof -
      have "n = K - Suc e" using Suc.hyps(2) by simp
      moreover have "Suc e \<le> K" using eK by simp
      moreover have "length (upsweep_pass ?t d) = 2 ^ K" using Suc.prems(3) by (simp add: upsweep_pass_def)
      moreover have "up_inv (Suc e) d0 (upsweep_pass ?t d)" using Suc.prems(4) by (rule up_inv_pass) simp
      ultimately obtain u where "up_inv K d0 u" using Suc.hyps(1) Suc.prems(2) by blast
      then show ?thesis using that by blast
    qed
    ultimately show ?thesis by auto
  next
    case True
    let ?d' = "upsweep_pass ?t d"
    have len': "length ?d' = length d" by (simp add: upsweep_pass_def)
    have "n = K - Suc e" using Suc.hyps(2) by simp
    moreover have "Suc e \<le> K" using eK by simp
    moreover have "length ?d' = 2 ^ K" using Suc.prems(3) len' by simp
    moreover have "up_inv (Suc e) d0 ?d'" using Suc.prems(4) by (rule up_inv_pass) simp
    ultimately obtain u where u: "up_inv K d0 u"
        "upsweep_loop (int (length ?d')) (int (2 ^ Suc e)) ?d' = (if up_fits K (Suc e) then Inr u else Inl OutOfBounds)"
      using Suc.hyps(1) Suc.prems(2) by blast
    have "upsweep_loop (int (length d)) (int ?t) d = upsweep_loop (int (length d)) (int (2 * ?t)) ?d'"
      using unf True by simp
    also have "\<dots> = (if up_fits K (Suc e) then Inr u else Inl OutOfBounds)"
      using u(2) len' by simp
    also have "\<dots> = (if up_fits K e then Inr u else Inl OutOfBounds)"
      using up_fits_step[OF eK] True Suc.prems(3) by simp
    finally show ?thesis using u(1) by blast
  qed
qed

lemma downsweep_loop_stop: "downsweep_loop len 0 d = Inr d"
  by (subst downsweep_loop.simps) simp

lemma downsweep_loop_pow2:
  assumes "Suc e \<le> K" "K \<le> 30" "length d = 2 ^ K" "down_inv (Suc e) d0 d"
  shows "\<exists>r. down_inv 0 d0 r \<and>
             downsweep_loop (int (length d)) (int (2 ^ e)) d
               = (if down_fits K e then Inr r else Inl OutOfBounds)"
  using assms
proof (induction e arbitrary: d)
  case 0
  have L: "length d = 2 ^ (K - Suc 0) * (2 * 2 ^ 0)" "length d \<le> 1073741824" "0 < (2::nat) ^ (K - Suc 0)"
    using 0(3) pow2_split[of 0 K] 0(1) pow2_bound[of K K] 0(2) by simp_all
  have e29: "(0::nat) \<le> 29" by simp
  note lvl = downsweep_launch[OF refl e29 L]
  have tw: "wrap32 (int (2 ^ 0) * 2) = int (2 * 2 ^ 0)" by (simp add: wrap32_def)
  have ge: "int (2 ^ 0) \<ge> 1" by simp
  have half: "int (2 ^ 0) div 2 = 0" by simp
  have unf: "downsweep_loop (int (length d)) (int (2 ^ 0)) d =
          (case (if launch_fits (length d) (2 * 2 ^ 0) then Inr (downsweep_pass (2 ^ 0) d) else Inl OutOfBounds) of
             Inl x \<Rightarrow> Inl x
           | Inr d' \<Rightarrow> Inr d')"
    apply (subst downsweep_loop.simps)
    apply (simp only: ge if_True Let_def tw half downsweep_loop_stop)
    apply (simp only: lvl[symmetric])
    apply (cases "num_blocks (int (length d)) (int (2 * 2 ^ 0))")
     apply (simp_all add: downsweep_loop_stop split: sum.splits)
    done
  have inv: "down_inv 0 d0 (downsweep_pass (2 ^ 0) d)"
  proof (rule down_inv_pass[OF 0(4) refl])
    show "length d0 = 2 ^ (K - Suc 0) * (2 * 2 ^ 0)"
      using L(1) 0(4) by (simp add: down_inv_def)
  qed
  show ?case using unf inv 0(3) by (auto simp: down_fits_0)
next
  case (Suc e)
  let ?t = "(2::nat) ^ Suc e"
  have eK: "Suc e < K" using Suc.prems(1) by simp
  have "2 * ?t \<le> 1073741824" using pow2_bound[of "Suc (Suc e)" K] eK Suc.prems(2) by simp
  then have "wrap32 (int (2 * ?t)) = int (2 * ?t)" by (intro wrap32_nat) simp
  moreover have "int ?t * 2 = int (2 * ?t)" by simp
  ultimately have tw: "wrap32 (int ?t * 2) = int (2 * ?t)" by (simp only:)
  have e29: "Suc e \<le> 29" using eK Suc.prems(2) by simp
  have L: "length d = 2 ^ (K - Suc (Suc e)) * (2 * ?t)" "length d \<le> 1073741824" "0 < (2::nat) ^ (K - Suc (Suc e))"
    using Suc.prems(3) pow2_split[OF eK] pow2_bound[of K K] Suc.prems(2) by simp_all
  note lvl = downsweep_launch[OF refl e29 L]
  have "(1::nat) \<le> ?t" by (rule one_le_power) simp
  then have ge: "int ?t \<ge> 1" by (simp only: of_nat_le_iff[symmetric, of 1 ?t] of_nat_1)
  have half: "int ?t div 2 = int (2 ^ e)" by simp
  have unf: "downsweep_loop (int (length d)) (int ?t) d =
          (case (if launch_fits (length d) (2 * ?t) then Inr (downsweep_pass ?t d) else Inl OutOfBounds) of
             Inl x \<Rightarrow> Inl x
           | Inr d' \<Rightarrow> downsweep_loop (int (length d)) (int (2 ^ e)) d')"
    apply (subst downsweep_loop.simps)
    apply (simp only: ge if_True Let_def tw half)
    apply (simp only: lvl[symmetric])
    apply (cases "num_blocks (int (length d)) (int (2 * 2 ^ Suc e))")
     apply simp_all
    done
  let ?d' = "downsweep_pass ?t d"
  have len': "length ?d' = length d" by (simp add: downsweep_pass_def)
  have "Suc e \<le> K" using eK by simp
  moreover have "length ?d' = 2 ^ K" using Suc.prems(3) len' by simp
  moreover have "down_inv (Suc e) d0 ?d'"
  proof (rule down_inv_pass[OF Suc.prems(4) refl])
    show "length d0 = 2 ^ (K - Suc (Suc e)) * (2 * ?t)"
      using L(1) Suc.prems(4) by (simp add: down_inv_def)
  qed
  ultimately obtain r where r: "down_inv 0 d0 r"
      "downsweep_loop (int (length ?d')) (int (2 ^ e)) ?d' = (if down_fits K e then Inr r else Inl OutOfBounds)"
    using Suc.IH Suc.prems(2) by blast
  show ?case
  proof (cases "launch_fits (length d) (2 * ?t)")
    case False
    then have "\<not> down_fits K (Suc e)" using down_fits_step[of K e] Suc.prems(3) by simp
    moreover have "downsweep_loop (int (length d)) (int ?t) d = Inl OutOfBounds" using unf False by simp
    ultimately show ?thesis using r(1) by auto
  next
    case True
    have "downsweep_loop (int (length d)) (int ?t) d = downsweep_loop (int (length d)) (int (2 ^ e)) ?d'"
      using unf True by simp
    also have "\<dots> = (if down_fits K e then Inr r else Inl OutOfBounds)"
      using r(2) len' by simp
    also have "\<dots> = (if down_fits K (Suc e) then Inr r else Inl OutOfBounds)"
      using down_fits_step[of K e] True Suc.prems(3) by simp
    finally show ?thesis using r(1) by blast
  qed
qed

lemma up_fits_scan: "up_fits K 0 = scan_fits K"
  by (simp add: up_fits_def scan_fits_def)

lemma down_fits_scan: "down_fits (Suc k) k = scan_fits (Suc k)"
  by (simp add: down_fits_def scan_fits_def less_Suc_eq_le)

lemma exclusive_scan_pow2:
  assumes n: "nextPow2 n = int (2 ^ K)" and K: "K \<le> 30" and L: "length d = 2 ^ K"
  shows "exclusive_scan d n
           = (if scan_fits K then Inr (map (\<lambda>j. sum_list (take j d)) [0 ..< length d])
              else Inl OutOfBounds)"
proof -
  have len: "nextPow2 n = int (length d)" using n L by simp
  obtain u where u: "up_inv K d u"
      "upsweep_loop (int (length d)) (int (2 ^ 0)) d = (if up_fits K 0 then Inr u else Inl OutOfBounds)"
    using upsweep_loop_pow2[OF le0 K L up_inv_init] by blast
  have up: "upsweep_loop (int (length d)) 1 d = (if scan_fits K then Inr u else Inl OutOfBounds)"
    using u(2) by (simp add: up_fits_scan)
  show ?thesis
  proof (cases "scan_fits K")
    case False
    then show ?thesis by (simp add: exclusive_scan_def len up)
  next
    case True
    have lu: "length u = length d" using u(1) by (simp add: up_inv_def)
    have Lpos: "0 < length d" using L by simp
    have Lb: "length d \<le> 1073741824" using L pow2_bound[of K K] K by simp
    have "int (length d) - 1 = int (length d - 1)" using Lpos by (cases "length d") simp_all
    moreover have "wrap32 (int (length d - 1)) = int (length d - 1)" using Lb by (intro wrap32_nat) simp
    ultimately have "wrap32 (int (length d) - 1) = int (length d - 1)" by (simp only:)
    then have "wr u (wrap32 (int (length d) - 1)) 0 = Inr (u[length d - 1 := 0])"
      using Lpos lu by (simp only: wr_nat) simp
    then have w: "wr u (wrap32 (int (length d) - 1)) 0 = Inr (u[2 ^ K - 1 := 0])"
      by (simp only: L)
    have cd: "c_div (int (length d)) 2 = Inr (int (length d div 2))"
      using c_div_nat[of 2 "length d"] Lb by simp
    have dinv: "down_inv K d (u[2 ^ K - 1 := 0])" using u(1) L by (rule down_inv_init)
    have l2: "length (u[2 ^ K - 1 := 0]) = 2 ^ K" using lu L by simp
    have "downsweep_loop (int (length d)) (int (length d div 2)) (u[2 ^ K - 1 := 0])
            = Inr (map (\<lambda>j. sum_list (take j d)) [0 ..< length d])"
    proof (cases K)
      case 0
      then have "length d div 2 = 0" using L by simp
      moreover have "u[2 ^ K - 1 := 0] = map (\<lambda>j. sum_list (take j d)) [0 ..< length d]"
        using dinv 0 by (intro down_inv_final) simp
      ultimately show ?thesis by (simp add: downsweep_loop_stop)
    next
      case (Suc k)
      then have h: "length d div 2 = 2 ^ k" using L by simp
      have "down_inv (Suc k) d (u[2 ^ K - 1 := 0])" using dinv Suc by simp
      from downsweep_loop_pow2[OF _ K l2 this] Suc
      obtain r where r: "down_inv 0 d r"
        "downsweep_loop (int (length (u[2 ^ K - 1 := 0]))) (int (2 ^ k)) (u[2 ^ K - 1 := 0])
           = (if down_fits K k then Inr r else Inl OutOfBounds)"
        by blast
      have "down_fits K k" using True Suc down_fits_scan by simp
      with r(2) have "downsweep_loop (int (length d)) (int (2 ^ k)) (u[2 ^ K - 1 := 0]) = Inr r"
        using l2 L by simp
      moreover have "r = map (\<lambda>j. sum_list (take j d)) [0 ..< length d]"
        using r(1) by (rule down_inv_final)
      ultimately show ?thesis using h by simp
    qed
    with True show ?thesis by (simp add: exclusive_scan_def len up w cd)
  qed
qed

lemma scan_fits_small:
  assumes "K \<le> 22"
  shows "scan_fits K"
  unfolding scan_fits_def launch_fits_def
proof (intro allI impI)
  fix e assume e: "e < K"
  let ?N = "(2::nat) ^ K div 2 ^ Suc e"
  let ?T = "(?N + 511) div 512 * 512"
  have "?T \<le> ?N + 511" by simp
  moreover have "0 < ?N"
  proof -
    have "(2::nat) ^ K = 2 ^ (K - Suc e) * 2 ^ Suc e" using pow2_split[OF e] by simp
    then show ?thesis by simp
  qed
  ultimately have "?T - 1 \<le> ?N + 510" by simp
  then have "(?T - 1) * 2 ^ Suc e \<le> (?N + 510) * 2 ^ Suc e" by (rule mult_le_mono1)
  also have "\<dots> = ?N * 2 ^ Suc e + 510 * 2 ^ Suc e" by (simp add: algebra_simps)
  also have "?N * 2 ^ Suc e \<le> 2 ^ K" by (rule div_times_less_eq_dividend)
  also have "(2::nat) ^ K \<le> 2 ^ 22" using assms by (intro power_increasing) simp_all
  also have "(2::nat) ^ Suc e \<le> 2 ^ 22" using assms e by (intro power_increasing) simp_all
  finally show "(?T - 1) * 2 ^ Suc e < 2147483648" by simp
qed

lemma scan_fits_large:
  assumes "23 \<le> K"
  shows "\<not> scan_fits K"
proof
  assume "scan_fits K"
  moreover obtain k where k: "K = Suc k" using assms by (cases K) auto
  ultimately have "launch_fits (2 ^ K) (2 ^ K)" by (auto simp: scan_fits_def)
  then have "511 * (2::nat) ^ K < 2147483648" by (simp add: launch_fits_def)
  moreover have "(2::nat) ^ 23 \<le> 2 ^ K" using assms by (intro power_increasing) simp_all
  ultimately show False by simp
qed

lemma smear_step:
  fixes a m :: int
  assumes "\<And>j. bit a j \<longleftrightarrow> (\<exists>s<w. bit m (j + s))" and w2: "w2 = 2 * w"
  shows "bit (a OR drop_bit w a) j \<longleftrightarrow> (\<exists>s<w2. bit m (j + s))"
proof -
  have "bit (a OR drop_bit w a) j \<longleftrightarrow> bit a j \<or> bit a (w + j)"
    by (simp add: bit_or_iff bit_drop_bit_eq)
  also have "\<dots> \<longleftrightarrow> (\<exists>s<w. bit m (j + s)) \<or> (\<exists>s<w. bit m (w + j + s))"
    by (simp only: assms(1))
  also have "\<dots> \<longleftrightarrow> (\<exists>s<2 * w. bit m (j + s))"
  proof
    assume "(\<exists>s<w. bit m (j + s)) \<or> (\<exists>s<w. bit m (w + j + s))"
    then show "\<exists>s<2 * w. bit m (j + s)"
    proof
      assume "\<exists>s<w. bit m (j + s)"
      then obtain s where "s < w" "bit m (j + s)" by blast
      then show ?thesis by (intro exI[of _ s]) simp
    next
      assume "\<exists>s<w. bit m (w + j + s)"
      then obtain s where "s < w" "bit m (w + j + s)" by blast
      then show ?thesis by (intro exI[of _ "w + s"]) (simp add: ac_simps)
    qed
  next
    assume "\<exists>s<2 * w. bit m (j + s)"
    then obtain s where s: "s < 2 * w" "bit m (j + s)" by blast
    show "(\<exists>s<w. bit m (j + s)) \<or> (\<exists>s<w. bit m (w + j + s))"
    proof (cases "s < w")
      case True
      with s show ?thesis by blast
    next
      case False
      then have "s - w < w" "w + j + (s - w) = j + s" using s by simp_all
      with s(2) show ?thesis by metis
    qed
  qed
  finally show ?thesis by (simp only: w2)
qed

lemma nextPow2_smear: "nextPow2 n = wrap32 (smear (wrap32 (n - 1)) + 1)"
  by (simp add: nextPow2_def smear_def Let_def)

lemma bit_smear: "bit (smear m) j \<longleftrightarrow> (\<exists>s<32. bit m (j + s))"
proof -
  define a1 where "a1 = m OR drop_bit 1 m"
  define a2 where "a2 = a1 OR drop_bit 2 a1"
  define a3 where "a3 = a2 OR drop_bit 4 a2"
  define a4 where "a4 = a3 OR drop_bit 8 a3"
  have 0: "bit m j \<longleftrightarrow> (\<exists>s<1. bit m (j + s))" for j by simp
  have 1: "bit a1 j \<longleftrightarrow> (\<exists>s<2. bit m (j + s))" for j
    unfolding a1_def by (rule smear_step[OF 0]) simp
  have 2: "bit a2 j \<longleftrightarrow> (\<exists>s<4. bit m (j + s))" for j
    unfolding a2_def by (rule smear_step[OF 1]) simp
  have 3: "bit a3 j \<longleftrightarrow> (\<exists>s<8. bit m (j + s))" for j
    unfolding a3_def by (rule smear_step[OF 2]) simp
  have 4: "bit a4 j \<longleftrightarrow> (\<exists>s<16. bit m (j + s))" for j
    unfolding a4_def by (rule smear_step[OF 3]) simp
  have 5: "bit (a4 OR drop_bit 16 a4) j \<longleftrightarrow> (\<exists>s<32. bit m (j + s))"
    by (rule smear_step[OF 4]) simp
  have "smear m = a4 OR drop_bit 16 a4"
    by (simp only: smear_def Let_def a1_def a2_def a3_def a4_def)
  with 5 show ?thesis by (simp only:)
qed

lemma smear_0: "smear 0 = 0"
  by (simp add: smear_def)

lemma smear_pow2:
  assumes "2 ^ k \<le> m" "m < 2 ^ Suc k" "k \<le> 31"
  shows "smear m = 2 ^ Suc k - 1"
proof -
  have top: "bit m k"
  proof -
    have "m div 2 ^ k = 1" using assms(1,2) by (intro int_div_pos_eq[where r = "m - 2 ^ k"]) simp_all
    then show ?thesis by (simp add: bit_iff_odd)
  qed
  have hi: "\<not> bit m i" if "k < i" for i
  proof -
    have "(2::int) ^ Suc k \<le> 2 ^ i" using that by (intro power_increasing) simp_all
    with assms have "m div 2 ^ i = 0" by (intro div_pos_pos_trivial) (auto intro: order_trans[of 0 "2 ^ k" m])
    then show ?thesis by (simp add: bit_iff_odd)
  qed
  have "smear m = mask (Suc k)"
  proof (rule bit_eqI)
    fix j
    have "(\<exists>s<32. bit m (j + s)) \<longleftrightarrow> j \<le> k"
    proof
      assume "\<exists>s<32. bit m (j + s)"
      then obtain s where "bit m (j + s)" by blast
      with hi have "\<not> k < j + s" by blast
      then show "j \<le> k" by simp
    next
      assume "j \<le> k"
      then have "k - j < 32" "j + (k - j) = k" using assms(3) by simp_all
      with top show "\<exists>s<32. bit m (j + s)" by metis
    qed
    then show "bit (smear m) j \<longleftrightarrow> bit (mask (Suc k) :: int) j"
      by (simp add: bit_smear bit_mask_iff less_Suc_eq_le)
  qed
  then show ?thesis by (simp add: mask_eq_exp_minus_1)
qed

lemma nextPow2_pow2:
  assumes "1 \<le> n" "n \<le> 1073741824"
  shows "\<exists>K\<le>30. nextPow2 n = 2 ^ K \<and> n \<le> 2 ^ K \<and> 2 ^ K < 2 * n"
proof (cases "n = 1")
  case True
  then have "nextPow2 n = 2 ^ 0" by (simp add: nextPow2_smear wrap32_def smear_0)
  with True show ?thesis by (intro exI[of _ 0]) simp
next
  case False
  define m where "m = n - 1"
  have m: "1 \<le> m" "m < 1073741824" using assms False by (simp_all add: m_def)
  have w: "wrap32 (n - 1) = m" using m unfolding m_def by (intro wrap32_id) simp_all
  have "1 \<le> nat m" using m by simp
  from ex_power_ivl1[OF order_refl this]
  obtain k where k: "2 ^ k \<le> nat m" "nat m < 2 ^ (k + 1)" by blast
  have lo: "(2::int) ^ k \<le> m"
  proof -
    have "int (2 ^ k) \<le> int (nat m)" using k(1) by (simp only: of_nat_le_iff)
    then show ?thesis using m by simp
  qed
  have hi: "m < 2 ^ Suc k"
  proof -
    have "int (nat m) < int (2 ^ (k + 1))" using k(2) by (simp only: of_nat_less_iff)
    then show ?thesis using m by simp
  qed
  have k29: "k \<le> 29"
  proof (rule ccontr)
    assume "\<not> k \<le> 29"
    then have "(2::int) ^ 30 \<le> 2 ^ k" by (intro power_increasing) simp_all
    with lo m show False by simp
  qed
  have s: "smear m = 2 ^ Suc k - 1" using lo hi k29 by (intro smear_pow2) simp_all
  have "(2::int) ^ Suc k \<le> 2 ^ 30" using k29 by (intro power_increasing) simp_all
  then have "(2::int) ^ Suc k \<le> 1073741824" by simp
  moreover have "(0::int) \<le> 2 ^ Suc k" by simp
  ultimately have "wrap32 (2 ^ Suc k) = (2::int) ^ Suc k" by (intro wrap32_id) linarith+
  then have "nextPow2 n = 2 ^ Suc k" by (simp add: nextPow2_smear w s)
  moreover have "n \<le> 2 ^ Suc k" using hi by (simp add: m_def)
  moreover have "(2::int) ^ Suc k < 2 * n" using lo by (simp add: m_def)
  ultimately show ?thesis using k29 by (intro exI[of _ "Suc k"]) simp
qed

lemma nextPow2_big:
  assumes "1073741824 < n" "n < 2147483648"
  shows "nextPow2 n = - 2147483648"
proof -
  have w: "wrap32 (n - 1) = n - 1" using assms by (intro wrap32_id) simp_all
  have "smear (n - 1) = 2 ^ Suc 30 - 1" using assms by (intro smear_pow2) simp_all
  then have "smear (n - 1) + 1 = 2147483648" by simp
  then have "nextPow2 n = wrap32 2147483648" by (simp only: nextPow2_smear w)
  then show ?thesis by (simp add: wrap32_def)
qed

subsection \<open>The scan as a whole\<close>


lemma exclusive_scan_correct:
  assumes n: "1 \<le> n" "n \<le> 4194304" and L: "int (length d) = nextPow2 n"
  shows "exclusive_scan d n = Inr (map (\<lambda>j. sum_list (take j d)) [0 ..< length d])
         \<and> nat n \<le> length d"
proof -
  from nextPow2_pow2[of n] n obtain K where K: "K \<le> 30" "nextPow2 n = 2 ^ K" "n \<le> 2 ^ K" "2 ^ K < 2 * n"
    by auto
  have "(2::int) ^ K < 2 ^ 23" using K(4) n(2) by simp
  then have "K < 23" by (simp only: power_strict_increasing_iff) 
  then have fits: "scan_fits K" by (intro scan_fits_small) simp
  have len: "length d = 2 ^ K" using L K(2) by (metis of_nat_eq_iff of_nat_numeral of_nat_power)
  have nK: "nextPow2 n = int (2 ^ K)" using K(2) by simp
  have "nat n \<le> length d" using K(3) L K(2) by simp
  with exclusive_scan_pow2[OF nK K(1) len] fits show ?thesis by simp
qed

lemma exclusive_scan_too_long:
  assumes n: "4194304 < n" "n \<le> 1073741824" and L: "int (length d) = nextPow2 n"
  shows "exclusive_scan d n = Inl OutOfBounds"
proof -
  from nextPow2_pow2[of n] n obtain K where K: "K \<le> 30" "nextPow2 n = 2 ^ K" "n \<le> 2 ^ K" "2 ^ K < 2 * n"
    by auto
  have "(2::int) ^ 22 < 2 ^ K" using K(3) n(1) by simp
  then have "22 < K" by (simp only: power_strict_increasing_iff)
  then have fits: "\<not> scan_fits K" by (intro scan_fits_large) simp
  have len: "length d = 2 ^ K" using L K(2) by (metis of_nat_eq_iff of_nat_numeral of_nat_power)
  have nK: "nextPow2 n = int (2 ^ K)" using K(2) by simp
  from exclusive_scan_pow2[OF nK K(1) len] fits show ?thesis by simp
qed

lemma exclusive_scan_padding:
  assumes n: "0 \<le> n" "n < 2147483648"
    and L: "int (length d1) = nextPow2 n" "int (length d2) = nextPow2 n"
    and eq: "take (nat n) d1 = take (nat n) d2"
  shows "map_sum id (take (nat n)) (exclusive_scan d1 n)
           = map_sum id (take (nat n)) (exclusive_scan d2 n)"
proof -
  consider "n = 0" | "1 \<le> n" "n \<le> 1073741824" | "1073741824 < n" using n(1) by linarith
  then show ?thesis
  proof cases
    case 1
    then have "d1 = []" "d2 = []" using L by (simp_all add: nextPow2_0)
    then show ?thesis by simp
  next
    case 2
    from nextPow2_pow2[OF 2] obtain K where K: "K \<le> 30" "nextPow2 n = 2 ^ K" "n \<le> 2 ^ K"
      by auto
    have len: "length d1 = 2 ^ K" "length d2 = 2 ^ K"
      using L K(2) by (metis of_nat_eq_iff of_nat_numeral of_nat_power)+
    have nK: "nextPow2 n = int (2 ^ K)" using K(2) by simp
    have pre: "take j d1 = take j d2" if "j < nat n" for j
    proof -
      have "take j d1 = take j (take (nat n) d1)" using that by (simp add: min_def)
      also have "\<dots> = take j (take (nat n) d2)" by (simp only: eq)
      also have "\<dots> = take j d2" using that by (simp add: min_def)
      finally show ?thesis .
    qed
    have "take (nat n) (map (\<lambda>j. sum_list (take j d1)) [0 ..< length d1])
            = take (nat n) (map (\<lambda>j. sum_list (take j d2)) [0 ..< length d2])"
    proof (rule nth_equalityI)
      show "length (take (nat n) (map (\<lambda>j. sum_list (take j d1)) [0 ..< length d1]))
              = length (take (nat n) (map (\<lambda>j. sum_list (take j d2)) [0 ..< length d2]))"
        by (simp add: len)
    next
      fix j assume "j < length (take (nat n) (map (\<lambda>j. sum_list (take j d1)) [0 ..< length d1]))"
      then have j: "j < nat n" "j < length d1" "j < length d2" by (simp_all add: len)
      then show "take (nat n) (map (\<lambda>j. sum_list (take j d1)) [0 ..< length d1]) ! j
                   = take (nat n) (map (\<lambda>j. sum_list (take j d2)) [0 ..< length d2]) ! j"
        using pre[OF j(1)] by simp
    qed
    then show ?thesis
      by (simp add: exclusive_scan_pow2[OF nK K(1) len(1)] exclusive_scan_pow2[OF nK K(1) len(2)])
  next
    case 3
    then have "nextPow2 n = - 2147483648" using n(2) by (rule nextPow2_big)
    with L(1) show ?thesis by simp
  qed
qed

lemma nextPow2_3: "nextPow2 3 = 4"
  by (simp add: nextPow2_def wrap32_def)

lemma nextPow2_8388608: "nextPow2 8388608 = 8388608"
  by (simp add: nextPow2_def wrap32_def)

text \<open>
  Claim C1 (exclusive_scan replaces element \<open>i < n\<close> by the sum of the elements before it, for
  every \<open>n\<close>, \<open>n = 0\<close> included). The scan is correct for \<open>1 \<le> n \<le> 2^22\<close>
  (\<open>exclusive_scan_correct\<close>), but not for every \<open>n\<close>. At \<open>n = 0\<close> the buffer of physical
  length \<open>nextPow2 0 = 0\<close> is empty, both sweep loops are skipped, and
  \<open>cudaMemset(device_data + length - 1, 0, sizeof(int))\<close> writes the element at index \<open>-1\<close>.
  At \<open>n = 2^23\<close> the last up-sweep launch has 512 threads and \<open>twod1 = 2^23\<close>; thread 256
  computes \<open>i = 256 * 2^23 = 2^31\<close>, which wraps to \<open>-2^31\<close>, passes \<open>i < length\<close> and
  accesses \<open>device_data[i + twod - 1]\<close> below the buffer.
\<close>

theorem exclusive_scan_faults:
  "exclusive_scan [] 0 = Inl OutOfBounds \<and>
   exclusive_scan (replicate 8388608 1) 8388608 = Inl OutOfBounds"
proof
  show "exclusive_scan [] 0 = Inl OutOfBounds"
    by (simp add: exclusive_scan_def nextPow2_0 upsweep_loop.simps[of 0 1] wr_def wrap32_def)
  show "exclusive_scan (replicate 8388608 1) 8388608 = Inl OutOfBounds"
    by (rule exclusive_scan_too_long) (simp_all add: nextPow2_8388608)
qed

text \<open>
  Claim C9 (the results at indices \<open>0..n-1\<close> do not depend on the padding): two buffers of
  the physical length \<open>nextPow2 n\<close> that agree on their first \<open>n\<close> elements give the same
  outcome on the first \<open>n\<close> elements: the same prefix sums, or the same fault. \<open>n\<close> is a
  non-negative C \<open>int\<close>.
\<close>

theorem exclusive_scan_padding_independent:
  assumes "0 \<le> n" and "n < 2147483648"
    and "int (length d1) = nextPow2 n" and "int (length d2) = nextPow2 n"
    and "take (nat n) d1 = take (nat n) d2"
  shows "map_sum id (take (nat n)) (exclusive_scan d1 n)
           = map_sum id (take (nat n)) (exclusive_scan d2 n)"
  using assms by (rule exclusive_scan_padding)

theorem exclusive_scan_padding_independent_witness:
  "(0::int) \<le> 3 \<and> (3::int) < 2147483648
   \<and> int (length [1, 2, 3, 9 :: 32 word]) = nextPow2 3
   \<and> int (length [1, 2, 3, 7 :: 32 word]) = nextPow2 3
   \<and> take (nat 3) [1, 2, 3, 9 :: 32 word] = take (nat 3) [1, 2, 3, 7]
   \<and> map_sum id (take (nat 3)) (exclusive_scan [1, 2, 3, 9] 3)
         = map_sum id (take (nat 3)) (exclusive_scan [1, 2, 3, 7] 3)
   \<and> exclusive_scan [1, 2, 3, 9] 3 = Inr [0, 1, 3, 6]
   \<and> exclusive_scan [1, 2, 3, 7] 3 = Inr [0, 1, 3, 6]"
proof -
  have h: "int (length [1, 2, 3, 9 :: 32 word]) = nextPow2 3"
          "int (length [1, 2, 3, 7 :: 32 word]) = nextPow2 3"
          "take (nat 3) [1, 2, 3, 9 :: 32 word] = take (nat 3) [1, 2, 3, 7]"
    by (simp_all add: nextPow2_3)
  have "map_sum id (take (nat 3)) (exclusive_scan [1, 2, 3, 9] 3)
          = map_sum id (take (nat 3)) (exclusive_scan [1, 2, 3, 7] 3)"
    by (rule exclusive_scan_padding_independent[OF _ _ h]) simp_all
  moreover have "exclusive_scan [1, 2, 3, 9] 3 = Inr [0, 1, 3, 6]"
    using exclusive_scan_correct[of 3 "[1, 2, 3, 9]"] h(1) by (simp add: upt_rec)
  moreover have "exclusive_scan [1, 2, 3, 7] 3 = Inr [0, 1, 3, 6]"
    using exclusive_scan_correct[of 3 "[1, 2, 3, 7]"] h(2) by (simp add: upt_rec)
  ultimately show ?thesis using h by simp
qed

text \<open>The same through \<open>cudaScan\<close>, which builds the padded buffer: the result does not depend
  on what the allocation held.\<close>

lemma cudaScan_padding_independent: "cudaScan inarray g1 = cudaScan inarray g2"
proof (cases "nextPow2 (int (length inarray)) < int (length inarray)")
  case True
  then show ?thesis by (simp add: cudaScan_def)
next
  case False
  let ?n = "int (length inarray)" and ?L = "nat (nextPow2 (int (length inarray)))"
  let ?d1 = "inarray @ map g1 [length inarray ..< ?L]"
  let ?d2 = "inarray @ map g2 [length inarray ..< ?L]"
  have r: "nextPow2 ?n < 2147483648" using wrap32_range[of "smear (wrap32 (?n - 1)) + 1"]
    by (simp add: nextPow2_smear)
  have "map_sum id (take (nat ?n)) (exclusive_scan ?d1 ?n)
          = map_sum id (take (nat ?n)) (exclusive_scan ?d2 ?n)"
    using False r by (intro exclusive_scan_padding) simp_all
  then have "map_sum id (take (length inarray)) (exclusive_scan ?d1 ?n)
          = map_sum id (take (length inarray)) (exclusive_scan ?d2 ?n)"
    by simp
  then show ?thesis using False
    by (cases "exclusive_scan ?d1 ?n"; cases "exclusive_scan ?d2 ?n") (simp_all add: cudaScan_def)
qed

subsection \<open>find_peaks\<close>

text \<open>
  Claim C10 (every read of the mark phase of find_peaks is within bounds): the kernel is
  launched for the thread indices \<open>0 ..< blocks * 512\<close> and has no guard; thread 0
  evaluates \<open>data[i-1]\<close> first, which is \<open>data[-1]\<close>, whatever the input array and its
  length are.
\<close>

theorem find_peak_kernel_thread0_out_of_bounds:
  "find_peak_kernel device_input len 0 peaks = Inl OutOfBounds"
  by (simp add: find_peak_kernel_def rd_def wrap32_def)

lemma launch_first_thread_faults:
  assumes "kern 0 s = Inl e" "0 < blocks"
  shows "launch blocks threadsPerBlock kern s = Inl e"
proof -
  have "0 < nat (blocks * threadsPerBlock)" using assms(2) by (simp add: threadsPerBlock_def)
  then have "[0 ..< nat (blocks * threadsPerBlock)] = 0 # [Suc 0 ..< nat (blocks * threadsPerBlock)]"
    by (rule upt_conv_Cons)
  then show ?thesis using assms(1) by (simp add: launch_def)
qed

lemma nextPow2_7: "nextPow2 7 = 8"
  by (simp add: nextPow2_def wrap32_def)

text \<open>
  Claim C5 (find_peaks returns the count and the sorted peak indices; \<open>[1,5,2,8,2,9,1]\<close>
  gives \<open>{1,3,5}\<close> and count 3). On the claim's own example (the input buffer has the
  physical length \<open>nextPow2 7 = 8\<close>) the mark kernel faults at thread 0 before any count
  is produced: the same missing guard as in claim C10.
\<close>

theorem find_peaks_example_faults:
  "find_peaks [1, 5, 2, 8, 2, 9, 1, 0] 7 [0, 0, 0, 0, 0, 0, 0, 0] (\<lambda>i. 0) (\<lambda>i. 0) (\<lambda>i. 0)
     = Inl OutOfBounds"
proof -
  have b: "c_div (wrap32 (wrap32 (8 + threadsPerBlock) - 1)) threadsPerBlock = Inr 1"
    by (simp add: c_div_def wrap32_def threadsPerBlock_def)
  have "launch 1 threadsPerBlock (find_peak_kernel [1, 5, 2, 8, 2, 9, 1, 0] 7)
          (map (\<lambda>i. 0) [0 ..< nat 8]) = Inl OutOfBounds"
    by (rule launch_first_thread_faults)
       (simp_all add: find_peak_kernel_def rd_def wrap32_def)
  then show ?thesis by (simp add: find_peaks_def nextPow2_7 b)
qed

section \<open>Properties of the list-build stage\<close>

lemma apply_writes_Nil [simp]: "apply_writes [] l = l"
  by (simp add: apply_writes_def)

lemma apply_writes_Cons [simp]: "apply_writes ((p, v) # ws) l = apply_writes ws (l[p := v])"
  by (simp add: apply_writes_def)

lemma apply_writes_append [simp]: "apply_writes (ws @ ws') l = apply_writes ws' (apply_writes ws l)"
  by (simp add: apply_writes_def)

lemma length_apply_writes [simp]: "length (apply_writes ws l) = length l"
  by (induction ws arbitrary: l) auto

lemma apply_writes_untouched:
  "p \<notin> fst ` set ws \<Longrightarrow> apply_writes ws l ! p = l ! p"
  by (induction ws arbitrary: l) auto

lemma apply_writes_written:
  assumes "(p, v) \<in> set ws" "\<forall>v'. (p, v') \<in> set ws \<longrightarrow> v' = v" "p < length l"
  shows "apply_writes ws l ! p = v"
  using assms
proof (induction ws arbitrary: l)
  case Nil
  then show ?case by simp
next
  case (Cons w ws)
  obtain q u where w: "w = (q, u)" by (cases w)
  have uniq: "\<forall>v'. (p, v') \<in> set ws \<longrightarrow> v' = v" using Cons.prems(2) by auto
  have len: "p < length (l[q := u])" using Cons.prems(3) by simp
  show ?case
  proof (cases "p \<in> fst ` set ws")
    case True
    then obtain v' where v': "(p, v') \<in> set ws" by force
    with uniq have "v' = v" by blast
    with v' have "(p, v) \<in> set ws" by blast
    from Cons.IH[OF this uniq len] show ?thesis by (simp only: w apply_writes_Cons)
  next
    case False
    then have "(p, v) \<notin> set ws" by force
    with Cons.prems(1) w have qu: "q = p" "u = v" by auto
    have "apply_writes ws (l[q := u]) ! p = l[q := u] ! p"
      using False by (rule apply_writes_untouched)
    also have "\<dots> = v" using Cons.prems(3) qu by simp
    finally show ?thesis by (simp only: w apply_writes_Cons)
  qed
qed

lemma run_threads_writes:
  assumes "\<And>t s'. t \<in> set ts \<Longrightarrow> length s' = length s \<Longrightarrow> kern (int t) s' = Inr (apply_writes (w t) s')"
  shows "run_threads kern ts s = Inr (apply_writes (concat (map w ts)) s)"
  using assms
proof (induction ts arbitrary: s)
  case Nil
  then show ?case by simp
next
  case (Cons t ts)
  have 1: "kern (int t) s = Inr (apply_writes (w t) s)" using Cons.prems by simp
  have "run_threads kern ts (apply_writes (w t) s)
          = Inr (apply_writes (concat (map w ts)) (apply_writes (w t) s))"
    using Cons.prems by (intro Cons.IH) simp_all
  with 1 show ?case by simp
qed

lemma run_grid_writes:
  assumes "\<And>b t s'. (b, t) \<in> set bts \<Longrightarrow> length s' = length s
             \<Longrightarrow> kern b t s' = Inr (apply_writes (w b t) s')"
  shows "run_grid kern bts s = Inr (apply_writes (concat (map (\<lambda>(b, t). w b t) bts)) s)"
  using assms
proof (induction bts arbitrary: s)
  case Nil
  then show ?case by simp
next
  case (Cons bt bts)
  obtain b t where bt: "bt = (b, t)" by (cases bt)
  have 1: "kern b t s = Inr (apply_writes (w b t) s)" using Cons.prems bt by simp
  have "run_grid kern bts (apply_writes (w b t) s)
          = Inr (apply_writes (concat (map (\<lambda>(b, t). w b t) bts)) (apply_writes (w b t) s))"
    using Cons.prems by (intro Cons.IH) simp_all
  with 1 show ?case by (simp add: bt)
qed

lemma u32_nat: "n < 4294967296 \<Longrightarrow> u32 (int n) = int n"
  by (simp add: u32_def)

lemma set_strided: "tid < 1024 \<Longrightarrow> set (strided tid N) = {c. c < N \<and> c mod 1024 = tid}"
proof -
  have "set (strided c N) = {c'. c \<le> c' \<and> c' < N \<and> c' mod 1024 = c mod 1024}" for c
  proof (induction c N rule: strided.induct)
    case (1 c N)
    show ?case
    proof (cases "c \<ge> N")
      case True
      then show ?thesis by (subst strided.simps) auto
    next
      case False
      have "{c'. c \<le> c' \<and> c' < N \<and> c' mod 1024 = c mod 1024}
              = insert c {c'. c + 1024 \<le> c' \<and> c' < N \<and> c' mod 1024 = (c + 1024) mod 1024}"
      proof (intro set_eqI iffI)
        fix x assume "x \<in> {c'. c \<le> c' \<and> c' < N \<and> c' mod 1024 = c mod 1024}"
        then have x: "c \<le> x" "x < N" "x mod 1024 = c mod 1024" by auto
        show "x \<in> insert c {c'. c + 1024 \<le> c' \<and> c' < N \<and> c' mod 1024 = (c + 1024) mod 1024}"
        proof (cases "x = c")
          case True then show ?thesis by simp
        next
          case False
          with x(1) have lt: "c < x" by simp
          have "1024 dvd (x - c)" using x(1,3) by (simp add: mod_eq_dvd_iff_nat)
          with lt have "1024 \<le> x - c" by (auto dest: dvd_imp_le)
          then have "c + 1024 \<le> x" by linarith
          moreover have "x mod 1024 = (c + 1024) mod 1024" using x(3) by simp
          ultimately show ?thesis using x(2) by blast
        qed
      next
        fix x assume "x \<in> insert c {c'. c + 1024 \<le> c' \<and> c' < N \<and> c' mod 1024 = (c + 1024) mod 1024}"
        then consider "x = c" | "c + 1024 \<le> x" "x < N" "x mod 1024 = (c + 1024) mod 1024"
          by blast
        then show "x \<in> {c'. c \<le> c' \<and> c' < N \<and> c' mod 1024 = c mod 1024}"
        proof cases
          case 1
          with False show ?thesis by simp
        next
          case 2
          have "(c + 1024) mod 1024 = c mod 1024" by (rule mod_add_self2)
          with 2(3) have "x mod 1024 = c mod 1024" by (simp only:)
          moreover have "c \<le> x" using 2(1) by linarith
          ultimately show ?thesis using 2(2) by blast
        qed
      qed
      moreover have "strided c N = c # strided (c + 1024) N"
        using False by (subst strided.simps) (simp only: if_False)
      moreover have "set (strided (c + 1024) N)
              = {c'. c + 1024 \<le> c' \<and> c' < N \<and> c' mod 1024 = (c + 1024) mod 1024}"
        using 1 False by blast
      ultimately show ?thesis by (simp only: list.set)
    qed
  qed
  then have "set (strided tid N) = {c'. tid \<le> c' \<and> c' < N \<and> c' mod 1024 = tid mod 1024}" .
  moreover assume "tid < 1024"
  then have m: "tid mod 1024 = tid" by (rule mod_less)
  have le: "tid \<le> c'" if "c' mod 1024 = tid" for c'
    using that mod_less_eq_dividend[of c' 1024] by (simp only:)
  show "set (strided tid N) = {c. c < N \<and> c mod 1024 = tid}"
    unfolding calculation m using le by blast
qed

lemma ceil1024: "(N::nat) \<le> 1024 * ((N + 1023) div 1024)"
proof -
  have "(N + 1023) div 1024 * 1024 + (N + 1023) mod 1024 = N + 1023" by (rule div_mult_mod_eq)
  moreover have "(N + 1023) mod 1024 < 1024" by (rule mod_less_divisor) simp
  ultimately show ?thesis by linarith
qed

lemma maxIterations_of_nat:
  assumes "N + 1024 < 2147483648"
  shows "maxIterations_of (int N) = int ((N + 1023) div 1024)"
proof -
  have e1: "int N + 1024 = int (N + 1024)" by simp
  have "u32 (int (N + 1024)) = int (N + 1024)" using assms by (intro u32_nat) linarith
  then have 1: "u32 (int N + 1024) = int (N + 1024)" by (simp only: e1)
  have e2: "int (N + 1024) - 1 = int (N + 1023)" by simp
  have "u32 (int (N + 1023)) = int (N + 1023)" using assms by (intro u32_nat) linarith
  then have 2: "u32 (int (N + 1024) - 1) = int (N + 1023)" by (simp only: e2)
  have 3: "int (N + 1023) div 1024 = int ((N + 1023) div 1024)" by (simp add: zdiv_int)
  have "(N + 1023) div 1024 \<le> N + 1023" by (rule div_le_dividend)
  then have 4: "wrap32 (int ((N + 1023) div 1024)) = int ((N + 1023) div 1024)"
    using assms by (intro wrap32_nat) linarith
  show ?thesis by (simp only: maxIterations_of_def 1 2 3 4)
qed

lemma strided_loop_eq:
  assumes "1024 * j \<le> c" "N + 1024 < 2147483648"
  shows "strided_loop body (int N) (int ((N + 1023) div 1024)) (int c) (int j) s
           = run_threads body (strided c N) s"
  using assms
proof (induction c N arbitrary: j s rule: strided.induct)
  case (1 c N)
  show ?case
  proof (cases "c \<ge> N")
    case True
    then have "strided c N = []" by (subst strided.simps) simp
    moreover have "strided_loop body (int N) (int ((N + 1023) div 1024)) (int c) (int j) s = Inr s"
      using True by (subst strided_loop.simps) simp
    ultimately show ?thesis by simp
  next
    case False
    have st: "strided c N = c # strided (c + 1024) N"
      using False by (subst strided.simps) (simp only: if_False)
    have guard: "\<not> int c \<ge> int N" using False by simp
    have w: "wrap32 (int c + 1024) = int (c + 1024)"
    proof -
      have "c + 1024 < 2147483648" using False "1.prems"(2) by linarith
      then have "wrap32 (int (c + 1024)) = int (c + 1024)" by (rule wrap32_nat)
      then show ?thesis by simp
    qed
    have j1: "int j + 1 = int (j + 1)" by simp
    show ?thesis
    proof (cases "body (int c) s")
      case (Inl e)
      then show ?thesis
        by (subst strided_loop.simps) (simp only: guard if_False Inl sum.case st run_threads.simps)
    next
      case (Inr s')
      show ?thesis
      proof (cases "j + 1 < (N + 1023) div 1024")
        case True
        then have lt: "int j + 1 < int ((N + 1023) div 1024)" "int (j + 1) < int ((N + 1023) div 1024)"
          by linarith+
        have "1024 * (j + 1) \<le> c + 1024" using "1.prems"(1) by simp
        from "1.IH"[OF False this "1.prems"(2)]
        have "strided_loop body (int N) (int ((N + 1023) div 1024)) (int (c + 1024)) (int (j + 1)) s'
                = run_threads body (strided (c + 1024) N) s'" .
        then show ?thesis
          by (subst strided_loop.simps)
             (simp only: guard if_False Inr sum.case lt if_True w j1 st run_threads.simps)
      next
        case F: False
        then have nlt: "\<not> int j + 1 < int ((N + 1023) div 1024)"
            "\<not> int (j + 1) < int ((N + 1023) div 1024)" by linarith+
        have "1024 * ((N + 1023) div 1024) \<le> 1024 * (j + 1)" using F by simp
        with ceil1024[of N] have "N \<le> 1024 * (j + 1)" by (rule order_trans)
        with "1.prems"(1) have "N \<le> c + 1024" by simp
        then have "strided (c + 1024) N = []" by (subst strided.simps) simp
        then show ?thesis
          by (subst strided_loop.simps)
             (simp only: guard if_False Inr sum.case nlt st run_threads.simps)
      qed
    qed
  qed
qed

lemma hits_before_le: "hits_before hit N t c \<le> c"
  unfolding hits_before_def using length_filter_le[of "hitp hit N t" "[0 ..< c]"] by simp

lemma row_index: "b < nb \<Longrightarrow> c < N \<Longrightarrow> b * N + c < nb * (N::nat)"
proof -
  assume "b < nb" "c < N"
  then have "b * N + N \<le> nb * N" by (rule_tac stride_le)
  with \<open>c < N\<close> show ?thesis by linarith
qed

lemma makeLists_body_writes:
  assumes b: "b < nb" and c: "c < N" and sz: "nb * N < 2147483648"
    and len: "length hit = nb * N" "length prefixes = nb * N" "length l = nb * N"
    and pre: "prefix_ok nb N hit prefixes" and hb: "hit_bool nb N hit"
  shows "makeLists_body b (int N) hit prefixes (int c) l
           = Inr (apply_writes (makeLists_writes N hit b c) l)"
proof -
  let ?P = "hits_before hit N b c"
  have bc: "b * N + c < nb * N" using b c by (rule row_index)
  have Ple: "?P \<le> c" by (rule hits_before_le)
  have bP: "b * N + ?P < nb * N" using b Ple c row_index[of b nb ?P N] by simp
  have e0: "int b * int N + int c = int (b * N + c)" by simp
  have "u32 (int (b * N + c)) = int (b * N + c)" using bc sz by (intro u32_nat) linarith
  moreover have "wrap32 (int (b * N + c)) = int (b * N + c)" using bc sz by (intro wrap32_nat) linarith
  ultimately have index: "wrap32 (u32 (int b * int N + int c)) = int (b * N + c)" by (simp only: e0)
  have "prefixes ! (b * N + c) = int ?P" using pre b c by (simp add: prefix_ok_def)
  then have idx: "rd prefixes (int (b * N + c)) = Inr (int ?P)"
    using bc by (simp only: rd_nat len if_True)
  have h: "rd hit (int (b * N + c)) = Inr (hit ! (b * N + c))"
    using bc by (simp only: rd_nat len if_True)
  have e1: "int b * int N + int ?P = int (b * N + ?P)" by simp
  have "u32 (int (b * N + ?P)) = int (b * N + ?P)" using bP sz by (intro u32_nat) linarith
  then have pos: "u32 (int b * int N + int ?P) = int (b * N + ?P)" by (simp only: e1)
  have Npos: "0 < N" using c by simp
  have NN: "N \<le> nb * N" using b by (cases nb) simp_all
  have "int N - 1 = int (N - 1)" using Npos by (cases N) simp_all
  moreover have "wrap32 (int (N - 1)) = int (N - 1)" using sz NN by (intro wrap32_nat) linarith
  ultimately have last: "wrap32 (int N - 1) = int (N - 1)" by (simp only:)
  have islast: "(int c = int (N - 1)) = (c = N - 1)" by simp
  have less: "(int ?P < int (N - 1)) = (?P < N - 1)" by simp
  have e2: "int ?P + 1 = int (?P + 1)" by simp
  have "wrap32 (int (?P + 1)) = int (?P + 1)" using Ple c NN sz by (intro wrap32_nat) linarith
  then have succ: "wrap32 (int ?P + 1) = int (?P + 1)" by (simp only: e2)
  have e3: "int b * int N + int (?P + 1) = int (b * N + (?P + 1))" by simp
  have pos1: "?P < N - 1 \<Longrightarrow> u32 (int b * int N + int (?P + 1)) = int (b * N + (?P + 1))"
  proof -
    assume "?P < N - 1"
    then have "?P + 1 < N" by simp
    with b have "b * N + (?P + 1) < nb * N" by (rule row_index)
    then have "u32 (int (b * N + (?P + 1))) = int (b * N + (?P + 1))" using sz by (intro u32_nat) linarith
    then show ?thesis by (simp only: e3)
  qed
  have inb1: "?P < N - 1 \<Longrightarrow> b * N + (?P + 1) < nb * N"
  proof -
    assume "?P < N - 1"
    then have "?P + 1 < N" by simp
    with b show "b * N + (?P + 1) < nb * N" by (rule row_index)
  qed
  have hv: "hit ! (b * N + c) = 0 \<or> hit ! (b * N + c) = 1" using hb b c by (simp add: hit_bool_def)
  show ?thesis
  proof (cases "hitp hit N b c")
    case True
    then have h1: "hit ! (b * N + c) = 1" by (simp add: hitp_def)
    show ?thesis
    proof (cases "c = N - 1")
      case L: True
      show ?thesis
      proof (cases "?P < N - 1")
        case P: True
        show ?thesis
          unfolding makeLists_body_def Let_def index idx h sum.case h1 pos last islast less succ
            pos1[OF P] wr_nat
          using True L P inb1[OF P] bP
          by (simp add: len makeLists_writes_def)
      next
        case P: False
        show ?thesis
          unfolding makeLists_body_def Let_def index idx h sum.case h1 pos last islast less succ wr_nat
          using True L P bP
          by (simp add: wr_nat len makeLists_writes_def)
      qed
    next
      case L: False
      show ?thesis
        unfolding makeLists_body_def Let_def index idx h sum.case h1 pos last islast less succ wr_nat
        using True L bP
        by (simp add: wr_nat len makeLists_writes_def)
    qed
  next
    case False
    then have h0: "hit ! (b * N + c) = 0" using hv by (simp add: hitp_def)
    show ?thesis
    proof (cases "c = N - 1")
      case L: True
      show ?thesis
        unfolding makeLists_body_def Let_def index idx h sum.case h0 pos last islast less succ wr_nat
        using False L bP
        by (simp add: wr_nat len makeLists_writes_def)
    next
      case L: False
      show ?thesis
        unfolding makeLists_body_def Let_def index idx h sum.case h0 pos last islast less succ wr_nat
        using False L bP
        by (simp add: wr_nat len makeLists_writes_def)
    qed
  qed
qed

lemma kernelMakeLists_launch_writes:
  assumes sz: "nb * N < 2147483648" "N + 1024 < 2147483648"
    and len: "length hit = nb * N" "length prefixes = nb * N" "length l = nb * N"
    and pre: "prefix_ok nb N hit prefixes" and hb: "hit_bool nb N hit"
  shows "kernelMakeLists_launch nb (int N) hit prefixes l
           = Inr (apply_writes (makeLists_all_writes nb N hit) l)"
  unfolding kernelMakeLists_launch_def launch_grid_def makeLists_all_writes_def
proof (rule run_grid_writes)
  fix b t and s' :: "int list"
  assume bt: "(b, t) \<in> set (List.product [0 ..< nb] [0 ..< 1024])" and ls: "length s' = length l"
  then have b: "b < nb" and t: "t < 1024" by auto
  have "kernelMakeLists (int N) hit prefixes b t s'
          = strided_loop (makeLists_body b (int N) hit prefixes) (int N)
              (int ((N + 1023) div 1024)) (int t) (int 0) s'"
    by (simp add: kernelMakeLists_def maxIterations_of_nat[OF sz(2)])
  also have "\<dots> = run_threads (makeLists_body b (int N) hit prefixes) (strided t N) s'"
    by (rule strided_loop_eq) (use sz in simp_all)
  also have "\<dots> = Inr (apply_writes (concat (map (makeLists_writes N hit b) (strided t N))) s')"
  proof (rule run_threads_writes)
    fix c and s'' :: "int list"
    assume "c \<in> set (strided t N)" and "length s'' = length s'"
    then have "c < N" "length s'' = nb * N" using set_strided[OF t] ls len by auto
    then show "makeLists_body b (int N) hit prefixes (int c) s''
                 = Inr (apply_writes (makeLists_writes N hit b c) s'')"
      using b sz(1) len pre hb by (intro makeLists_body_writes) simp_all
  qed
  finally show "kernelMakeLists (int N) hit prefixes b t s'
        = Inr (apply_writes (concat (map (makeLists_writes N hit b) (strided t N))) s')" .
qed

lemma in_makeLists_all_writes:
  "w \<in> set (makeLists_all_writes nb N hit)
     \<longleftrightarrow> (\<exists>b<nb. \<exists>c<N. w \<in> set (makeLists_writes N hit b c))"
proof
  assume "w \<in> set (makeLists_all_writes nb N hit)"
  then obtain b t c where "b < nb" "t < 1024" "c \<in> set (strided t N)"
      "w \<in> set (makeLists_writes N hit b c)"
    by (auto simp: makeLists_all_writes_def)
  moreover from this have "c < N" using set_strided[of t N] by blast
  ultimately show "\<exists>b<nb. \<exists>c<N. w \<in> set (makeLists_writes N hit b c)" by blast
next
  assume "\<exists>b<nb. \<exists>c<N. w \<in> set (makeLists_writes N hit b c)"
  then obtain b c where bc: "b < nb" "c < N" "w \<in> set (makeLists_writes N hit b c)" by blast
  have t: "c mod 1024 < 1024" by simp
  have "c \<in> set (strided (c mod 1024) N)" using set_strided[OF t, of N] bc(2) by blast
  moreover have "b \<in> {0 ..< nb}" "c mod 1024 \<in> {0 ..< 1024}" using bc(1) t by simp_all
  ultimately have "\<exists>x\<in>{0 ..< nb}. \<exists>y\<in>{0 ..< 1024}. \<exists>xa\<in>set (strided y N).
                      w \<in> set (makeLists_writes N hit x xa)"
    using bc(3) by blast
  then show "w \<in> set (makeLists_all_writes nb N hit)"
    by (simp add: makeLists_all_writes_def)
qed

lemma tile_hits_split:
  assumes "c < N"
  shows "tile_hits hit N t = filter (hitp hit N t) [0 ..< c] @ filter (hitp hit N t) [c ..< N]"
proof -
  have "[0 ..< c + (N - c)] = [0 ..< c] @ [c ..< c + (N - c)]" by (rule upt_add_eq_append) simp
  then have "[0 ..< N] = [0 ..< c] @ [c ..< N]" using assms by simp
  then show ?thesis by (simp add: tile_hits_def)
qed

lemma hits_before_nth:
  assumes "c < N" "hitp hit N t c"
  shows "hits_before hit N t c < length (tile_hits hit N t)"
    and "tile_hits hit N t ! hits_before hit N t c = c"
proof -
  have "[c ..< N] = c # [Suc c ..< N]" using assms(1) by (rule upt_conv_Cons)
  then have "tile_hits hit N t
               = filter (hitp hit N t) [0 ..< c] @ c # filter (hitp hit N t) [Suc c ..< N]"
    using tile_hits_split[OF assms(1)] assms(2) by simp
  then show "hits_before hit N t c < length (tile_hits hit N t)"
    and "tile_hits hit N t ! hits_before hit N t c = c"
    by (simp_all add: hits_before_def nth_append)
qed

lemma hits_before_total: "hits_before hit N t N = length (tile_hits hit N t)"
  by (simp add: hits_before_def tile_hits_def)

lemma hits_before_last:
  assumes "0 < N"
  shows "length (tile_hits hit N t)
           = hits_before hit N t (N - 1) + (if hitp hit N t (N - 1) then 1 else 0)"
proof -
  have "[0 ..< N] = [0 ..< N - 1] @ [N - 1]" using assms by (metis Suc_diff_1 upt_Suc_append le0)
  then show ?thesis by (simp add: hits_before_def tile_hits_def)
qed

lemma tile_hits_mem: "c \<in> set (tile_hits hit N t) \<longleftrightarrow> c < N \<and> hitp hit N t c"
  by (auto simp: tile_hits_def)

lemma tile_hits_distinct: "distinct (tile_hits hit N t)"
  by (simp add: tile_hits_def)

lemma tile_hits_sorted: "sorted_wrt (<) (tile_hits hit N t)"
  unfolding tile_hits_def by (rule sorted_wrt_filter) simp

lemma tile_hits_nth:
  assumes "s < length (tile_hits hit N t)"
  shows "tile_hits hit N t ! s < N" and "hitp hit N t (tile_hits hit N t ! s)"
    and "hits_before hit N t (tile_hits hit N t ! s) = s"
proof -
  let ?c = "tile_hits hit N t ! s"
  have "?c \<in> set (tile_hits hit N t)" using assms by simp
  then show c: "?c < N" "hitp hit N t ?c" by (simp_all add: tile_hits_mem)
  from hits_before_nth[OF c]
  have "hits_before hit N t ?c < length (tile_hits hit N t)"
       "tile_hits hit N t ! hits_before hit N t ?c = tile_hits hit N t ! s" by simp_all
  then show "hits_before hit N t ?c = s"
    using assms tile_hits_distinct[of hit N t] by (simp add: nth_eq_iff_index_eq)
qed

lemma row_unique:
  assumes "b * N + x = t * N + s" "x < N" "s < (N::nat)"
  shows "b = t \<and> x = s"
proof -
  have "(b * N + x) div N = b" "(b * N + x) mod N = x" using assms(2) by simp_all
  moreover have "(t * N + s) div N = t" "(t * N + s) mod N = s" using assms(3) by simp_all
  ultimately show ?thesis using assms(1) by metis
qed

lemma in_makeLists_writes:
  assumes "c < N"
  shows "w \<in> set (makeLists_writes N hit b c) \<longleftrightarrow>
           (hitp hit N b c \<and> w = (b * N + hits_before hit N b c, int c))
           \<or> (c = N - 1 \<and> length (tile_hits hit N b) < N
               \<and> w = (b * N + length (tile_hits hit N b), - 1))"
proof (cases "c = N - 1")
  case False
  then show ?thesis by (auto simp: makeLists_writes_def)
next
  case True
  have N: "0 < N" using assms by simp
  have P: "hits_before hit N b (N - 1) \<le> N - 1" by (rule hits_before_le)
  note k = hits_before_last[OF N, of hit b]
  show ?thesis
  proof (cases "hitp hit N b (N - 1)")
    case h: True
    then have "length (tile_hits hit N b) = hits_before hit N b (N - 1) + 1" using k by simp
    then show ?thesis using True h P N by (auto simp: makeLists_writes_def)
  next
    case h: False
    then have "length (tile_hits hit N b) = hits_before hit N b (N - 1)" using k by simp
    then show ?thesis using True h P N by (auto simp: makeLists_writes_def)
  qed
qed

lemma all_writes_cases:
  assumes "(p, v) \<in> set (makeLists_all_writes nb N hit)"
  obtains (hit) b c where "b < nb" "c < N" "hitp hit N b c"
      "p = b * N + hits_before hit N b c" "v = int c"
  | (sentinel) b where "b < nb" "length (tile_hits hit N b) < N"
      "p = b * N + length (tile_hits hit N b)" "v = - 1"
proof -
  from assms obtain b c where bc: "b < nb" "c < N" "(p, v) \<in> set (makeLists_writes N hit b c)"
    unfolding in_makeLists_all_writes by blast
  from bc(3) in_makeLists_writes[OF bc(2), of "(p, v)" hit b]
  consider "hitp hit N b c" "p = b * N + hits_before hit N b c" "v = int c"
    | "length (tile_hits hit N b) < N" "p = b * N + length (tile_hits hit N b)" "v = - 1"
    by auto
  then show ?thesis using bc hit sentinel by cases blast+
qed

lemma makeLists_live:
  assumes t: "t < nb" and s: "s < length (tile_hits hit N t)" and l: "length l = nb * N"
  shows "apply_writes (makeLists_all_writes nb N hit) l ! (t * N + s) = int (tile_hits hit N t ! s)"
proof (rule apply_writes_written)
  let ?c = "tile_hits hit N t ! s"
  note c = tile_hits_nth[OF s]
  have "(t * N + s, int ?c) \<in> set (makeLists_writes N hit t ?c)"
    using in_makeLists_writes[OF c(1), of "(t * N + s, int ?c)" hit t] c by simp
  then show "(t * N + s, int ?c) \<in> set (makeLists_all_writes nb N hit)"
    unfolding in_makeLists_all_writes using t c(1) by blast
  have sN: "s < N" using c(1,3) hits_before_le[of hit N t ?c] by linarith
  show "\<forall>v'. (t * N + s, v') \<in> set (makeLists_all_writes nb N hit) \<longrightarrow> v' = int ?c"
  proof (intro allI impI)
    fix v' assume "(t * N + s, v') \<in> set (makeLists_all_writes nb N hit)"
    then show "v' = int ?c"
    proof (cases rule: all_writes_cases)
      case (hit b c')
      have "hits_before hit N b c' < N" using hits_before_le[of hit N b c'] hit(2) by linarith
      with row_unique[of b N "hits_before hit N b c'" t s] hit(4) sN
      have bt: "b = t" "hits_before hit N b c' = s" by simp_all
      from hits_before_nth(2)[OF hit(2,3)] bt have "?c = c'" by simp
      with hit(5) show ?thesis by simp
    next
      case (sentinel b)
      with row_unique[of b N "length (tile_hits hit N b)" t s] sN
      have "b = t" "length (tile_hits hit N b) = s" by simp_all
      with s show ?thesis by simp
    qed
  qed
  show "t * N + s < length l" using row_index[OF t sN] l by simp
qed

lemma makeLists_sentinel:
  assumes t: "t < nb" and k: "length (tile_hits hit N t) < N" and l: "length l = nb * N"
  shows "apply_writes (makeLists_all_writes nb N hit) l ! (t * N + length (tile_hits hit N t)) = - 1"
proof (rule apply_writes_written)
  let ?k = "length (tile_hits hit N t)"
  have N: "N - 1 < N" using k by simp
  have "(t * N + ?k, - 1) \<in> set (makeLists_writes N hit t (N - 1))"
    using in_makeLists_writes[OF N, of "(t * N + ?k, - 1)" hit t] k by simp
  then show "(t * N + ?k, - 1) \<in> set (makeLists_all_writes nb N hit)"
    unfolding in_makeLists_all_writes using t N by blast
  show "\<forall>v'. (t * N + ?k, v') \<in> set (makeLists_all_writes nb N hit) \<longrightarrow> v' = - 1"
  proof (intro allI impI)
    fix v' assume "(t * N + ?k, v') \<in> set (makeLists_all_writes nb N hit)"
    then show "v' = - 1"
    proof (cases rule: all_writes_cases)
      case (hit b c')
      have "hits_before hit N b c' < N" using hits_before_le[of hit N b c'] hit(2) by linarith
      with row_unique[of b N "hits_before hit N b c'" t ?k] hit(4) k
      have bt: "b = t" "hits_before hit N b c' = ?k" by simp_all
      from hits_before_nth(1)[OF hit(2,3)] bt show ?thesis by simp
    next
      case (sentinel b)
      then show ?thesis by simp
    qed
  qed
  show "t * N + ?k < length l" using row_index[OF t k] l by simp
qed

lemma makeLists_rest:
  assumes t: "t < nb" and s: "length (tile_hits hit N t) < s" "s < N"
  shows "apply_writes (makeLists_all_writes nb N hit) l ! (t * N + s) = l ! (t * N + s)"
proof (rule apply_writes_untouched)
  show "t * N + s \<notin> fst ` set (makeLists_all_writes nb N hit)"
  proof
    assume "t * N + s \<in> fst ` set (makeLists_all_writes nb N hit)"
    then obtain v where "(t * N + s, v) \<in> set (makeLists_all_writes nb N hit)" by force
    then show False
    proof (cases rule: all_writes_cases)
      case (hit b c')
      have "hits_before hit N b c' < N" using hits_before_le[of hit N b c'] hit(2) by linarith
      with row_unique[of b N "hits_before hit N b c'" t s] hit(4) s(2)
      have bt: "b = t" "hits_before hit N b c' = s" by simp_all
      from hits_before_nth(1)[OF hit(2,3)] bt s(1) show ?thesis by simp
    next
      case (sentinel b)
      with row_unique[of b N "length (tile_hits hit N b)" t s] s(2)
      have "b = t" "length (tile_hits hit N b) = s" by simp_all
      with s(1) show ?thesis by simp
    qed
  qed
qed

lemma tile_row_nth:
  assumes "t < nb" "s < N" "length xs = nb * N"
  shows "tile_row N t xs ! s = xs ! (t * N + s)"
proof -
  have "t * N + s < nb * N" using assms(1,2) by (rule row_index)
  then show ?thesis using assms by (simp add: tile_row_def)
qed

lemma tile_row_length:
  assumes "t < nb" "length xs = nb * N"
  shows "length (tile_row N t xs) = N"
proof -
  have "t * N + N \<le> nb * N" using assms(1) by (rule stride_le)
  then show ?thesis using assms(2) by (simp add: tile_row_def)
qed

lemma kernelMakeLists_row:
  assumes sz: "nb * N < 2147483648" "N + 1024 < 2147483648"
    and len: "length hit = nb * N" "length prefixes = nb * N" "length l = nb * N"
    and pre: "prefix_ok nb N hit prefixes" and hb: "hit_bool nb N hit" and t: "t < nb"
  shows "\<exists>l'. kernelMakeLists_launch nb (int N) hit prefixes l = Inr l' \<and> length l' = nb * N \<and>
           tile_row N t l' =
             map int (tile_hits hit N t) @
             (if length (tile_hits hit N t) < N
              then - 1 # drop (Suc (length (tile_hits hit N t))) (tile_row N t l) else [])"
proof -
  let ?l' = "apply_writes (makeLists_all_writes nb N hit) l"
  let ?k = "length (tile_hits hit N t)"
  let ?rhs = "map int (tile_hits hit N t) @
             (if ?k < N then - 1 # drop (Suc ?k) (tile_row N t l) else [])"
  have run: "kernelMakeLists_launch nb (int N) hit prefixes l = Inr ?l'"
    using sz len pre hb by (rule kernelMakeLists_launch_writes)
  have l': "length ?l' = nb * N" using len by simp
  have kN: "?k \<le> N" using length_filter_le[of "hitp hit N t" "[0 ..< N]"] by (simp add: tile_hits_def)
  have rl: "length (tile_row N t ?l') = N" "length (tile_row N t l) = N"
    by (rule tile_row_length[OF t l'], rule tile_row_length[OF t len(3)])
  have "tile_row N t ?l' = ?rhs"
  proof (rule nth_equalityI)
    show "length (tile_row N t ?l') = length ?rhs" using rl kN by auto
  next
    fix s assume "s < length (tile_row N t ?l')"
    then have s: "s < N" using rl by simp
    have lhs: "tile_row N t ?l' ! s = ?l' ! (t * N + s)" using t s l' by (rule tile_row_nth)
    consider "s < ?k" | "s = ?k" | "?k < s" by linarith
    then show "tile_row N t ?l' ! s = ?rhs ! s"
    proof cases
      case 1
      then show ?thesis using lhs makeLists_live[OF t 1 len(3)] by (simp add: nth_append)
    next
      case 2
      then have "?k < N" using s by simp
      then show ?thesis using lhs 2 makeLists_sentinel[OF t _ len(3)] by (simp add: nth_append)
    next
      case 3
      have "?l' ! (t * N + s) = l ! (t * N + s)" using t 3 s by (rule makeLists_rest)
      also have "\<dots> = tile_row N t l ! s" using tile_row_nth[OF t s len(3)] by simp
      finally have "tile_row N t ?l' ! s = tile_row N t l ! s" using lhs by simp
      moreover have "?rhs ! s = tile_row N t l ! s"
      proof -
        obtain d where d: "s = Suc ?k + d" using 3 by (metis Suc_leI le_Suc_ex)
        have "?k < N" using 3 s by simp
        then have "?rhs ! s = drop (Suc ?k) (tile_row N t l) ! d"
          by (simp add: nth_append d)
        also have "\<dots> = tile_row N t l ! s" using s rl(2) by (simp add: d)
        finally show ?thesis .
      qed
      ultimately show ?thesis by simp
    qed
  qed
  with run l' show ?thesis by blast
qed

lemma tile_row_whole: "length xs = N \<Longrightarrow> tile_row N 0 xs = xs"
  by (simp add: tile_row_def)

lemma kernelMakeLists_example_stale:
  assumes "length l = 3"
  shows "kernelMakeLists_launch 1 3 [1, 0, 0] [0, 1, 1] l = Inr [0, - 1, l ! 2]"
proof -
  have h: "prefix_ok 1 3 [1, 0, 0] [0, 1, 1]" "hit_bool 1 3 [1, 0, 0]"
    by code_simp+
  have th: "tile_hits [1, 0, 0] 3 0 = [0]" by code_simp
  have "\<exists>l'. kernelMakeLists_launch 1 (int 3) [1, 0, 0] [0, 1, 1] l = Inr l' \<and> length l' = 1 * 3 \<and>
           tile_row 3 0 l' =
             map int (tile_hits [1, 0, 0] 3 0) @
             (if length (tile_hits [1, 0, 0] 3 0) < 3
              then - 1 # drop (Suc (length (tile_hits [1, 0, 0] 3 0))) (tile_row 3 0 l) else [])"
    by (rule kernelMakeLists_row) (use assms h in simp_all)
  then obtain l' where l': "kernelMakeLists_launch 1 (int 3) [1, 0, 0] [0, 1, 1] l = Inr l'"
     "length l' = 1 * 3"
     "tile_row 3 0 l' = map int [0] @ (if length [0::nat] < 3 then - 1 # drop (Suc (length [0::nat])) (tile_row 3 0 l) else [])"
    unfolding th by blast
  have row: "tile_row 3 0 l' = l'" "tile_row 3 0 l = l" using l'(2) assms by (simp_all add: tile_row_whole)
  obtain a b c where l: "l = [a, b, c]" using assms
    by (cases l; cases "tl l"; cases "tl (tl l)") auto
  have "l' = [0, - 1, l ! 2]" using l'(3) unfolding row by (simp add: l)
  with l'(1) show ?thesis by simp
qed

lemma kernelMakeLists_example_full:
  assumes "length l = 1"
  shows "kernelMakeLists_launch 1 1 [1] [0] l = Inr [0]"
proof -
  have h: "prefix_ok 1 1 [1] [0]" "hit_bool 1 1 [1]"
    by code_simp+
  have th: "tile_hits [1] 1 0 = [0]" by code_simp
  have "\<exists>l'. kernelMakeLists_launch 1 (int 1) [1] [0] l = Inr l' \<and> length l' = 1 * 1 \<and>
           tile_row 1 0 l' =
             map int (tile_hits [1] 1 0) @
             (if length (tile_hits [1] 1 0) < 1
              then - 1 # drop (Suc (length (tile_hits [1] 1 0))) (tile_row 1 0 l) else [])"
    by (rule kernelMakeLists_row) (use assms h in simp_all)
  then obtain l' where l': "kernelMakeLists_launch 1 (int 1) [1] [0] l = Inr l'"
     "length l' = 1 * 1"
     "tile_row 1 0 l' = map int [0] @ (if length [0::nat] < 1 then - 1 # drop (Suc (length [0::nat])) (tile_row 1 0 l) else [])"
    unfolding th by blast
  have row: "tile_row 1 0 l' = l'" using l'(2) by (simp add: tile_row_whole)
  have "l' = [0]" using l'(3) unfolding row by simp
  with l'(1) show ?thesis by simp
qed

text \<open>
  Claim C8, as stated, fails: the slots after the sentinel are not written. One tile, three
  circles, the list holding \<open>[0, 1, 2]\<close> from a frame in which all three circles hit the
  tile; in this frame only circle 0 hits. The list becomes \<open>[0, -1, 2]\<close>: the trailing slot
  keeps the stale index 2. (\<open>CudaRenderer::render\<close> has the clearing
  \<open>cudaMemset(hitCirclesList, -1, ...)\<close> commented out.)
\<close>

theorem kernelMakeLists_trailing_counterexample:
  "kernelMakeLists_launch 1 3 [1, 0, 0] [0, 1, 1] [0, 1, 2] = Inr [0, - 1, 2]"
  using kernelMakeLists_example_stale[of "[0, 1, 2]"] by simp

text \<open>
  Claim C2, as stated, fails in two ways. When every circle hits the tile the list is full
  and no sentinel is written (the guard \<open>idx < numCircles - 1\<close>): one tile, one circle that
  hits gives \<open>[0]\<close>. And the sentinel need not be unique, since slots after it keep their
  old contents: a list that held \<open>[-1, -1, -1]\<close> becomes \<open>[0, -1, -1]\<close>.
\<close>

theorem kernelMakeLists_sentinel_counterexample:
  "kernelMakeLists_launch 1 1 [1] [0] [7] = Inr [0] \<and>
   kernelMakeLists_launch 1 3 [1, 0, 0] [0, 1, 1] [- 1, - 1, - 1] = Inr [0, - 1, - 1]"
  using kernelMakeLists_example_full[of "[7]"] kernelMakeLists_example_stale[of "[- 1, - 1, - 1]"]
  by simp

lemma tile_hits_set: "set (tile_hits hit N t) = {c. c < N \<and> hit ! (t * N + c) = 1}"
  by (auto simp: tile_hits_def hitp_def)

text \<open>
  Claim C8, amended: after the list-build stage the row of tile \<open>t\<close> holds the indices of
  the circles that hit the tile in increasing order, followed by the sentinel \<open>-1\<close> when
  fewer than \<open>N\<close> circles hit; the slots after the sentinel keep the contents they had
  before the launch. The hypotheses: the buffers have \<open>numBlocks * N\<close> elements, the indices
  fit an \<open>int\<close>, the hit matrix holds 0 and 1 only, and \<open>prefixes\<close> holds the exclusive hit
  counts (what the scan stage produces, claim C4).
\<close>

theorem kernelMakeLists_row_contents:
  assumes "nb * N < 2147483648" and "N + 1024 < 2147483648"
    and "length hit = nb * N" and "length prefixes = nb * N" and "length l = nb * N"
    and "prefix_ok nb N hit prefixes" and "hit_bool nb N hit" and "t < nb"
  shows "\<exists>l'. kernelMakeLists_launch nb (int N) hit prefixes l = Inr l' \<and>
           tile_row N t l' =
             map int (tile_hits hit N t) @
             (if length (tile_hits hit N t) < N
              then - 1 # drop (Suc (length (tile_hits hit N t))) (tile_row N t l) else []) \<and>
           sorted_wrt (<) (tile_hits hit N t) \<and>
           set (tile_hits hit N t) = {c. c < N \<and> hit ! (t * N + c) = 1}"
  using kernelMakeLists_row[OF assms] tile_hits_sorted[of hit N t] tile_hits_set[of hit N t]
  by blast

theorem kernelMakeLists_row_contents_witness:
  "(2::nat) * 3 < 2147483648 \<and> (3::nat) + 1024 < 2147483648
   \<and> length [1, 0, 1, 0, 1, 1 :: int] = 2 * 3
   \<and> prefix_ok 2 3 [1, 0, 1, 0, 1, 1] [0, 1, 1, 0, 0, 1] \<and> hit_bool 2 3 [1, 0, 1, 0, 1, 1]
   \<and> (\<exists>l'. kernelMakeLists_launch 2 3 [1, 0, 1, 0, 1, 1] [0, 1, 1, 0, 0, 1] [5, 6, 7, 8, 9, 4] = Inr l'
          \<and> tile_row 3 0 l' = [0, 2, - 1] \<and> tile_row 3 1 l' = [1, 2, - 1])"
proof -
  have h: "prefix_ok 2 3 [1, 0, 1, 0, 1, 1] [0, 1, 1, 0, 0, 1]" "hit_bool 2 3 [1, 0, 1, 0, 1, 1]"
    by code_simp+
  have th: "tile_hits [1, 0, 1, 0, 1, 1] 3 0 = [0, 2]" "tile_hits [1, 0, 1, 0, 1, 1] 3 1 = [1, 2]"
    by code_simp+
  have r: "tile_row 3 0 [5, 6, 7, 8, 9, 4 :: int] = [5, 6, 7]" "tile_row 3 1 [5, 6, 7, 8, 9, 4 :: int] = [8, 9, 4]"
    by (simp_all add: tile_row_def)
  from kernelMakeLists_row_contents[of 2 3 "[1, 0, 1, 0, 1, 1]" "[0, 1, 1, 0, 0, 1]" "[5, 6, 7, 8, 9, 4]" 0, OF _ _ _ _ _ h]
  obtain l0 where l0: "kernelMakeLists_launch 2 (int 3) [1, 0, 1, 0, 1, 1] [0, 1, 1, 0, 0, 1] [5, 6, 7, 8, 9, 4] = Inr l0"
      "tile_row 3 0 l0 = [0, 2, - 1]"
    unfolding th r by auto
  from kernelMakeLists_row_contents[of 2 3 "[1, 0, 1, 0, 1, 1]" "[0, 1, 1, 0, 0, 1]" "[5, 6, 7, 8, 9, 4]" 1, OF _ _ _ _ _ h]
  obtain l1 where l1: "kernelMakeLists_launch 2 (int 3) [1, 0, 1, 0, 1, 1] [0, 1, 1, 0, 0, 1] [5, 6, 7, 8, 9, 4] = Inr l1"
      "tile_row 3 1 l1 = [1, 2, - 1]"
    unfolding th r by auto
  from l0 l1 have "l0 = l1" by simp
  with l0 l1 h show ?thesis by auto
qed

text \<open>
  Claim C2, amended: with \<open>k\<close> the number of circles that hit tile \<open>t\<close>, which is
  \<open>prefix[t][N-1] + hit[t][N-1]\<close>, the first \<open>k\<close> entries of the tile's list are strictly
  ascending, are exactly the circle indices \<open>c\<close> with \<open>hit[t][c] = 1\<close> and contain no
  sentinel; when \<open>k < N\<close> the entry at position \<open>k\<close> is the sentinel. (When \<open>k = N\<close> no
  sentinel is written, and nothing is said about the slots after position \<open>k\<close>.)
\<close>

theorem kernelMakeLists_live_prefix:
  assumes "nb * N < 2147483648" and "N + 1024 < 2147483648"
    and "length hit = nb * N" and "length prefixes = nb * N" and "length l = nb * N"
    and "prefix_ok nb N hit prefixes" and "hit_bool nb N hit" and "t < nb" and "0 < N"
  shows "\<exists>l' k. kernelMakeLists_launch nb (int N) hit prefixes l = Inr l' \<and>
           int k = prefixes ! (t * N + (N - 1)) + hit ! (t * N + (N - 1)) \<and>
           k = card {c. c < N \<and> hit ! (t * N + c) = 1} \<and> k \<le> N \<and>
           sorted_wrt (<) (take k (tile_row N t l')) \<and>
           set (take k (tile_row N t l')) = int ` {c. c < N \<and> hit ! (t * N + c) = 1} \<and>
           (\<forall>s<k. tile_row N t l' ! s \<noteq> - 1) \<and>
           (k < N \<longrightarrow> tile_row N t l' ! k = - 1)"
proof -
  let ?cs = "tile_hits hit N t"
  let ?k = "length ?cs"
  from kernelMakeLists_row[OF assms(1-8)] obtain l' where
    l': "kernelMakeLists_launch nb (int N) hit prefixes l = Inr l'"
    and row: "tile_row N t l' = map int ?cs @
             (if ?k < N then - 1 # drop (Suc ?k) (tile_row N t l) else [])"
    by blast
  have tk: "take ?k (tile_row N t l') = map int ?cs" unfolding row by simp
  have kN: "?k \<le> N" using length_filter_le[of "hitp hit N t" "[0 ..< N]"] by (simp add: tile_hits_def)
  have N1: "N - 1 < N" using assms(9) by simp
  have "prefixes ! (t * N + (N - 1)) = int (hits_before hit N t (N - 1))"
    using assms(6,8) N1 unfolding prefix_ok_def by blast
  moreover have "hit ! (t * N + (N - 1)) = (if hitp hit N t (N - 1) then 1 else 0)"
  proof -
    have "hit ! (t * N + (N - 1)) = 0 \<or> hit ! (t * N + (N - 1)) = 1"
      using assms(7,8) N1 unfolding hit_bool_def by blast
    then show ?thesis unfolding hitp_def by auto
  qed
  ultimately have pos: "int ?k = prefixes ! (t * N + (N - 1)) + hit ! (t * N + (N - 1))"
    using hits_before_last[OF assms(9), of hit t] by simp
  have card: "?k = card {c. c < N \<and> hit ! (t * N + c) = 1}"
    using distinct_card[OF tile_hits_distinct[of hit N t]] by (simp add: tile_hits_set)
  have sorted: "sorted_wrt (<) (take ?k (tile_row N t l'))"
    unfolding tk using tile_hits_sorted[of hit N t] by (simp add: sorted_wrt_map)
  have set: "set (take ?k (tile_row N t l')) = int ` {c. c < N \<and> hit ! (t * N + c) = 1}"
    unfolding tk by (simp add: tile_hits_set)
  have live: "\<forall>s<?k. tile_row N t l' ! s \<noteq> - 1"
  proof (intro allI impI)
    fix s assume "s < ?k"
    then have "tile_row N t l' ! s = int (?cs ! s)" unfolding row by (simp add: nth_append)
    then show "tile_row N t l' ! s \<noteq> - 1" by simp
  qed
  have sent: "?k < N \<longrightarrow> tile_row N t l' ! ?k = - 1" unfolding row by (simp add: nth_append)
  from l' pos card kN sorted set live sent show ?thesis by blast
qed

theorem kernelMakeLists_live_prefix_witness:
  "(2::nat) * 3 < 2147483648 \<and> (3::nat) + 1024 < 2147483648
   \<and> length [1, 0, 1, 1, 1, 1 :: int] = 2 * 3
   \<and> prefix_ok 2 3 [1, 0, 1, 1, 1, 1] [0, 1, 1, 0, 1, 2] \<and> hit_bool 2 3 [1, 0, 1, 1, 1, 1]
   \<and> (\<exists>l' k. kernelMakeLists_launch 2 3 [1, 0, 1, 1, 1, 1] [0, 1, 1, 0, 1, 2] [5, 6, 7, 8, 9, 4] = Inr l'
          \<and> int k = 2 \<and> tile_row 3 0 l' ! k = - 1
          \<and> set (take k (tile_row 3 0 l')) = int ` {c. c < 3 \<and> [1, 0, 1, 1, 1, 1 :: int] ! (0 * 3 + c) = 1})"
proof -
  have h: "prefix_ok 2 3 [1, 0, 1, 1, 1, 1] [0, 1, 1, 0, 1, 2]" "hit_bool 2 3 [1, 0, 1, 1, 1, 1]"
    by code_simp+
  from kernelMakeLists_live_prefix[of 2 3 "[1, 0, 1, 1, 1, 1]" "[0, 1, 1, 0, 1, 2]" "[5, 6, 7, 8, 9, 4]" 0, OF _ _ _ _ _ h]
  obtain l' k where
    "kernelMakeLists_launch 2 (int 3) [1, 0, 1, 1, 1, 1] [0, 1, 1, 0, 1, 2] [5, 6, 7, 8, 9, 4] = Inr l'"
    "int k = [0, 1, 1, 0, 1, 2] ! (0 * 3 + (3 - 1)) + [1, 0, 1, 1, 1, 1 :: int] ! (0 * 3 + (3 - 1))"
    "set (take k (tile_row 3 0 l')) = int ` {c. c < 3 \<and> [1, 0, 1, 1, 1, 1 :: int] ! (0 * 3 + c) = 1}"
    "k < 3 \<longrightarrow> tile_row 3 0 l' ! k = - 1"
    by auto
  moreover from this have "int k = 2" by simp
  ultimately show ?thesis using h by (intro conjI exI[of _ l'] exI[of _ k]) simp_all
qed

subsection \<open>kernelScan2 computes the exclusive hit counts of every tile\<close>

lemma run_threads_writes_inv:
  assumes "I s"
    and "\<And>t s'. t \<in> set ts \<Longrightarrow> I s'
           \<Longrightarrow> kern (int t) s' = Inr (apply_writes (w t) s') \<and> I (apply_writes (w t) s')"
  shows "run_threads kern ts s = Inr (apply_writes (concat (map w ts)) s)"
  using assms
proof (induction ts arbitrary: s)
  case Nil
  then show ?case by simp
next
  case (Cons t ts)
  have 1: "kern (int t) s = Inr (apply_writes (w t) s)" "I (apply_writes (w t) s)"
    using Cons.prems by simp_all
  have "run_threads kern ts (apply_writes (w t) s)
          = Inr (apply_writes (concat (map w ts)) (apply_writes (w t) s))"
    using Cons.prems(2) 1(2) by (intro Cons.IH) simp_all
  with 1 show ?case by simp
qed

lemma chunk_index:
  assumes "1024 * j + t < N" "N + 1024 < 2147483648"
  shows "wrap32 (int t + int j * SCAN_BLOCK_DIM) = int (1024 * j + t)"
proof -
  have "int t + int j * 1024 = int (1024 * j + t)" by simp
  moreover have "wrap32 (int (1024 * j + t)) = int (1024 * j + t)"
    using assms by (intro wrap32_nat) linarith
  ultimately show ?thesis by (simp only: SCAN_BLOCK_DIM_def)
qed

lemma chunk_index_out:
  assumes "N \<le> 1024 * j + t" "t < 1024" "1024 * j < N" "N + 1024 < 2147483648"
  shows "\<not> wrap32 (int t + int j * SCAN_BLOCK_DIM) < int N"
proof -
  have "int t + int j * 1024 = int (1024 * j + t)" by simp
  moreover have "wrap32 (int (1024 * j + t)) = int (1024 * j + t)"
    using assms by (intro wrap32_nat) linarith
  ultimately have "wrap32 (int t + int j * SCAN_BLOCK_DIM) = int (1024 * j + t)"
    by (simp only: SCAN_BLOCK_DIM_def)
  then show ?thesis using assms(1) by simp
qed

lemma flat_index:
  assumes "b < nb" "c < N" "nb * N < 4294967296"
  shows "u32 (int b * int N + int c) = int (b * N + c)" and "b * N + c < nb * N"
proof -
  show lt: "b * N + c < nb * N" using assms(1,2) by (rule row_index)
  have "int b * int N + int c = int (b * N + c)" by simp
  moreover have "u32 (int (b * N + c)) = int (b * N + c)" using lt assms(3) by (intro u32_nat) linarith
  ultimately show "u32 (int b * int N + int c) = int (b * N + c)" by (simp only:)
qed

lemma scan2_load_writes:
  assumes b: "b < nb" and t: "t < 1024" and sz: "nb * N < 4294967296" "N + 1024 < 2147483648"
    and len: "length hit = nb * N" "length input = 1024" and j: "1024 * j < N"
  shows "scan2_load b (int N) hit (int j) (int t) input = Inr (apply_writes (load_writes b N hit j t) input)"
proof (cases "1024 * j + t < N")
  case True
  note i = chunk_index[OF True sz(2)]
  note f = flat_index[OF b True sz(1)]
  have g: "int (1024 * j + t) < int N" using True by simp
  have r: "rd hit (int (b * N + (1024 * j + t))) = Inr (hit ! (b * N + (1024 * j + t)))"
    using f(2) by (simp only: rd_nat len if_True)
  have w: "wr input (int t) v = Inr (input[t := v])" for v using t len(2) by (simp only: wr_nat) simp
  show ?thesis
    by (simp only: scan2_load_def Let_def i g if_True f(1) r sum.case w load_writes_def True
          apply_writes_Cons apply_writes_Nil)
next
  case False
  then have "N \<le> 1024 * j + t" by simp
  from chunk_index_out[OF this t j sz(2)] False show ?thesis
    by (simp only: scan2_load_def Let_def if_False load_writes_def apply_writes_Nil)
qed

lemma scan2_load_phase:
  assumes b: "b < nb" and sz: "nb * N < 4294967296" "N + 1024 < 2147483648"
    and len: "length hit = nb * N" "length input = 1024" and j: "1024 * j < N"
  shows "\<exists>input1. run_threads (scan2_load b (int N) hit (int j)) [0 ..< 1024] input = Inr input1
           \<and> length input1 = 1024
           \<and> (\<forall>t<1024. 1024 * j + t < N \<longrightarrow> input1 ! t = word_of_int (hit ! (b * N + (1024 * j + t))))"
proof -
  let ?ws = "concat (map (load_writes b N hit j) [0 ..< 1024])"
  have run: "run_threads (scan2_load b (int N) hit (int j)) [0 ..< 1024] input = Inr (apply_writes ?ws input)"
  proof (rule run_threads_writes)
    fix t and s' :: "32 word list"
    assume "t \<in> set [0 ..< 1024]" "length s' = length input"
    then have "t < 1024" "length s' = 1024" using len(2) by simp_all
    then show "scan2_load b (int N) hit (int j) (int t) s' = Inr (apply_writes (load_writes b N hit j t) s')"
      using b sz len(1) j by (intro scan2_load_writes) simp_all
  qed
  have mem: "(p, v) \<in> set ?ws \<longleftrightarrow> p < 1024 \<and> 1024 * j + p < N \<and> v = word_of_int (hit ! (b * N + (1024 * j + p)))"
    for p v
    by (auto simp: load_writes_def split: if_splits)
  have "apply_writes ?ws input ! t = word_of_int (hit ! (b * N + (1024 * j + t)))"
    if "t < 1024" "1024 * j + t < N" for t
  proof (rule apply_writes_written)
    show "(t, word_of_int (hit ! (b * N + (1024 * j + t)))) \<in> set ?ws" using that by (simp only: mem)
    show "\<forall>v'. (t, v') \<in> set ?ws \<longrightarrow> v' = word_of_int (hit ! (b * N + (1024 * j + t)))"
      by (simp only: mem) blast
    show "t < length input" using that len(2) by simp
  qed
  with run len(2) show ?thesis by (intro exI[of _ "apply_writes ?ws input"]) simp
qed

lemma hits_in_0 [simp]: "hits_in hit N t a 0 = 0"
  by (simp add: hits_in_def)

lemma hits_in_Suc: "hits_in hit N t a (Suc n) = hits_in hit N t a n + (if hitp hit N t (a + n) then 1 else 0)"
  by (simp add: hits_in_def)

lemma hits_in_le: "hits_in hit N t a n \<le> n"
  unfolding hits_in_def using length_filter_le[of "hitp hit N t" "[a ..< a + n]"] by simp

lemma hits_before_add: "hits_before hit N t (a + n) = hits_before hit N t a + hits_in hit N t a n"
proof -
  have "[0 ..< a + n] = [0 ..< a] @ [a ..< a + n]" by (rule upt_add_eq_append) simp
  then show ?thesis by (simp add: hits_before_def hits_in_def)
qed

lemma hits_before_Suc:
  "hits_before hit N t (Suc c) = hits_before hit N t c + (if hitp hit N t c then 1 else 0)"
  by (simp add: hits_before_def)

lemma hit_word:
  assumes "hit_bool nb N hit" "b < nb" "c < N"
  shows "(word_of_int (hit ! (b * N + c)) :: 32 word) = (if hitp hit N b c then 1 else 0)"
proof -
  have "hit ! (b * N + c) = 0 \<or> hit ! (b * N + c) = 1" using assms by (simp add: hit_bool_def)
  then show ?thesis by (auto simp: hitp_def)
qed

lemma scan_chunk:
  assumes hb: "hit_bool nb N hit" and b: "b < nb" and len: "length input1 = 1024"
    and inp: "\<forall>t<1024. 1024 * j + t < N \<longrightarrow> input1 ! t = word_of_int (hit ! (b * N + (1024 * j + t)))"
    and t: "t < 1024" "1024 * j + t \<le> N"
  shows "sharedMemExclusiveScan input1 1024 ! t = (of_nat (hits_in hit N b (1024 * j) t) :: 32 word)"
proof -
  have "sum_list (take t input1) = (of_nat (hits_in hit N b (1024 * j) t) :: 32 word)"
    using t
  proof (induction t)
    case 0
    then show ?case by simp
  next
    case (Suc t)
    have t': "t < 1024" "1024 * j + t < N" "1024 * j + t \<le> N" using Suc.prems by simp_all
    have "take (Suc t) input1 = take t input1 @ [input1 ! t]"
      using t'(1) len by (simp add: take_Suc_conv_app_nth)
    moreover have "input1 ! t = (if hitp hit N b (1024 * j + t) then 1 else 0)"
      using inp t'(1,2) hit_word[OF hb b t'(2)] by simp
    moreover note Suc.IH[OF t'(1) t'(3)]
    ultimately show ?case by (simp add: hits_in_Suc)
  qed
  moreover have "sharedMemExclusiveScan input1 1024 ! t = sum_list (take t input1)"
    unfolding sharedMemExclusiveScan_def using t(1) by (simp only: nth_map_upt0)
  ultimately show ?thesis by simp
qed

lemma sint_small: "n < 2147483648 \<Longrightarrow> sint (of_nat n :: 32 word) = int n"
proof -
  assume n: "n < 2147483648"
  have "signed_take_bit 31 (int n) = int n"
    by (rule signed_take_bit_int_eq_self) (use n in simp_all)
  then have stb: "signed_take_bit (LENGTH(32) - 1) (int n) = int n" by simp
  have a: "(of_nat n :: 32 word) = word_of_int (int n)" by simp
  have "sint (word_of_int (int n) :: 32 word) = signed_take_bit (LENGTH(32) - 1) (int n)"
    by (rule sint_sbintrunc')
  with stb have "sint (word_of_int (int n) :: 32 word) = int n" by (simp only:)
  then show ?thesis by (simp only: a)
qed

lemma length_scan [simp]: "length (sharedMemExclusiveScan input n) = n"
  by (simp add: sharedMemExclusiveScan_def)

lemma carry_index:
  assumes "1 \<le> j" "1024 * j < N" "N + 1024 < 2147483648"
  shows "wrap32 (wrap32 (int j * SCAN_BLOCK_DIM) - 1) = int (1024 * j - 1)"
proof -
  have "int j * 1024 = int (1024 * j)" by simp
  moreover have "wrap32 (int (1024 * j)) = int (1024 * j)" using assms by (intro wrap32_nat) linarith
  ultimately have 1: "wrap32 (int j * SCAN_BLOCK_DIM) = int (1024 * j)" by (simp only: SCAN_BLOCK_DIM_def)
  have 2: "int (1024 * j) - 1 = int (1024 * j - 1)" using assms(1) by simp
  have "wrap32 (int (1024 * j - 1)) = int (1024 * j - 1)" using assms by (intro wrap32_nat) linarith
  then show ?thesis by (simp only: 1 2)
qed

lemma scan2_store_writes:
  assumes b: "b < nb" and t: "t < 1024" and sz: "nb * N < 4294967296" "N + 1024 < 2147483648"
    and len: "length hit = nb * N" "length out = 1024" "length s' = nb * N" and j: "1024 * j < N"
    and hb: "hit_bool nb N hit"
    and out: "\<forall>t<1024. 1024 * j + t \<le> N \<longrightarrow> out ! t = of_nat (hits_in hit N b (1024 * j) t)"
    and inv: "1 \<le> j \<longrightarrow> s' ! (b * N + (1024 * j - 1)) = int (hits_before hit N b (1024 * j - 1))"
  shows "scan2_store b (int N) hit out (int j) (int t) s' = Inr (apply_writes (store_writes b N hit j t) s')"
proof (cases "1024 * j + t < N")
  case True
  let ?c = "1024 * j + t"
  let ?p = "b * N + ?c"
  note i = chunk_index[OF True sz(2)]
  note f = flat_index[OF b True sz(1)]
  have g: "int ?c < int N" using True by simp
  have o: "rd out (int t) = Inr (out ! t)" using t len(2) by (simp only: rd_nat) simp
  have "hits_in hit N b (1024 * j) t \<le> t" by (rule hits_in_le)
  then have "hits_in hit N b (1024 * j) t < 2147483648" using t by linarith
  then have "sint (of_nat (hits_in hit N b (1024 * j) t) :: 32 word) = int (hits_in hit N b (1024 * j) t)"
    by (rule sint_small)
  moreover have "out ! t = of_nat (hits_in hit N b (1024 * j) t)" using out t True by simp
  ultimately have so: "sint (out ! t) = int (hits_in hit N b (1024 * j) t)" by (simp only:)
  have plen: "?p < length s'" using f(2) len(3) by simp
  have w1: "wr s' (int ?p) v = Inr (s'[?p := v])" for v using plen by (simp only: wr_nat if_True)
  have split: "hits_before hit N b ?c = hits_before hit N b (1024 * j) + hits_in hit N b (1024 * j) t"
    by (rule hits_before_add)
  show ?thesis
  proof (cases "1 \<le> j")
    case False
    then have j0: "j = 0" by simp
    have nj: "\<not> 1 \<le> int j" using False by simp
    have "hits_before hit N b ?c = hits_in hit N b (1024 * j) t"
      using split by (simp add: j0 hits_before_def)
    then have v: "int (hits_in hit N b (1024 * j) t) = int (hits_before hit N b ?c)" by simp
    show ?thesis
      by (simp only: scan2_store_def Let_def i g if_True o sum.case f(1) w1 so nj if_False v
            store_writes_def True apply_writes_Cons apply_writes_Nil)
  next
    case j1: True
    let ?l = "b * N + (1024 * j - 1)"
    have lN: "1024 * j - 1 < N" using j by simp
    note ci = carry_index[OF j1 j sz(2)]
    note fl = flat_index[OF b lN sz(1)]
    have ij: "1 \<le> int j" using j1 by simp
    have ne: "?l \<noteq> ?p" using j1 by simp
    have p1len: "?l < length (s'[?p := v])" "?p < length (s'[?p := v])" for v
      using fl(2) plen len(3) by simp_all
    have r1: "rd (s'[?p := v]) (int ?l) = Inr (int (hits_before hit N b (1024 * j - 1)))" for v
    proof -
      have "s'[?p := v] ! ?l = s' ! ?l" using ne by simp
      with inv j1 have "s'[?p := v] ! ?l = int (hits_before hit N b (1024 * j - 1))" by simp
      then show ?thesis using p1len(1)[of v] by (simp only: rd_nat if_True)
    qed
    have pos: "0 \<le> int (hits_before hit N b (1024 * j - 1))" by simp
    have r2: "rd hit (int ?l) = Inr (hit ! ?l)" using fl(2) len(1) by (simp only: rd_nat) simp
    have hbl: "hits_before hit N b (1024 * j - 1) \<le> 1024 * j - 1" by (rule hits_before_le)
    have e1: "int (hits_before hit N b (1024 * j - 1)) + 1 = int (hits_before hit N b (1024 * j - 1) + 1)"
      by simp
    have wr1: "wrap32 (int (hits_before hit N b (1024 * j - 1)) + 1)
                      = int (hits_before hit N b (1024 * j - 1) + 1)"
      unfolding e1 using hbl j sz(2) by (intro wrap32_nat) linarith
    have "hits_before hit N b (Suc (1024 * j - 1))
            = hits_before hit N b (1024 * j - 1) + (if hitp hit N b (1024 * j - 1) then 1 else 0)"
      by (rule hits_before_Suc)
    moreover have "Suc (1024 * j - 1) = 1024 * j" using j1 by simp
    ultimately have hs: "hits_before hit N b (1024 * j)
            = hits_before hit N b (1024 * j - 1) + (if hitp hit N b (1024 * j - 1) then 1 else 0)"
      by (simp only:)
    have add: "(if hit ! ?l = 1 then int (hits_before hit N b (1024 * j - 1) + 1)
                else int (hits_before hit N b (1024 * j - 1))) = int (hits_before hit N b (1024 * j))"
      unfolding hs hitp_def by simp
    have r3: "rd (s'[?p := v]) (int ?p) = Inr v" for v
      using plen by (simp only: rd_nat) simp
    have "hits_before hit N b ?c \<le> ?c" by (rule hits_before_le)
    then have "wrap32 (int (hits_before hit N b ?c)) = int (hits_before hit N b ?c)"
      using True sz(2) by (intro wrap32_nat) linarith
    moreover have "int (hits_in hit N b (1024 * j) t) + int (hits_before hit N b (1024 * j))
                     = int (hits_before hit N b ?c)" using split by simp
    ultimately have fin: "wrap32 (int (hits_in hit N b (1024 * j) t) + int (hits_before hit N b (1024 * j)))
                     = int (hits_before hit N b ?c)" by (simp only:)
    have w2: "wr (s'[?p := v]) (int ?p) v' = Inr (s'[?p := v'])" for v v'
      using plen by (simp only: wr_nat) simp
    show ?thesis
      by (simp only: scan2_store_def Let_def i g if_True o sum.case f(1) w1 so ij ci fl(1) r1 pos
            r2 wr1 add r3 fin w2 store_writes_def True apply_writes_Cons apply_writes_Nil)
  qed
next
  case False
  then have "N \<le> 1024 * j + t" by simp
  from chunk_index_out[OF this t j sz(2)] False show ?thesis
    by (simp only: scan2_store_def Let_def if_False store_writes_def apply_writes_Nil)
qed

lemma scan2_store_phase:
  assumes b: "b < nb" and sz: "nb * N < 4294967296" "N + 1024 < 2147483648"
    and len: "length hit = nb * N" "length out = 1024" "length p = nb * N" and j: "1024 * j < N"
    and hb: "hit_bool nb N hit"
    and out: "\<forall>t<1024. 1024 * j + t \<le> N \<longrightarrow> out ! t = of_nat (hits_in hit N b (1024 * j) t)"
    and dn: "row_done hit N b (1024 * j) p"
  shows "\<exists>p1. run_threads (scan2_store b (int N) hit out (int j)) [0 ..< 1024] p = Inr p1
           \<and> length p1 = nb * N \<and> row_done hit N b (min N (1024 * (j + 1))) p1 \<and> rows_kept N b p p1"
proof -
  let ?ws = "concat (map (store_writes b N hit j) [0 ..< 1024])"
  let ?I = "\<lambda>s'. length s' = nb * N
               \<and> (1 \<le> j \<longrightarrow> s' ! (b * N + (1024 * j - 1)) = int (hits_before hit N b (1024 * j - 1)))"
  have run: "run_threads (scan2_store b (int N) hit out (int j)) [0 ..< 1024] p = Inr (apply_writes ?ws p)"
  proof (rule run_threads_writes_inv[where I = ?I])
    have "p ! (b * N + (1024 * j - 1)) = int (hits_before hit N b (1024 * j - 1))" if "1 \<le> j"
    proof -
      have "1024 * j - 1 < 1024 * j" using that by simp
      with dn show ?thesis unfolding row_done_def by blast
    qed
    with len(3) show "?I p" by blast
  next
    fix t and s' :: "int list"
    assume "t \<in> set [0 ..< 1024]" and I: "?I s'"
    then have t: "t < 1024" by simp
    have 1: "scan2_store b (int N) hit out (int j) (int t) s' = Inr (apply_writes (store_writes b N hit j t) s')"
      using b t sz len(1,2) _ j hb out by (rule scan2_store_writes) (use I in simp_all)
    have 2: "?I (apply_writes (store_writes b N hit j t) s')"
      using I by (auto simp: store_writes_def)
    from 1 2 show "scan2_store b (int N) hit out (int j) (int t) s' = Inr (apply_writes (store_writes b N hit j t) s')
                     \<and> ?I (apply_writes (store_writes b N hit j t) s')" by (rule conjI)
  qed
  have mem: "(q, v) \<in> set ?ws \<longleftrightarrow>
               (\<exists>t<1024. 1024 * j + t < N \<and> q = b * N + (1024 * j + t) \<and> v = int (hits_before hit N b (1024 * j + t)))"
    for q v
    by (auto simp: store_writes_def split: if_splits)
  have written: "apply_writes ?ws p ! (b * N + c) = int (hits_before hit N b c)"
    if c: "1024 * j \<le> c" "c < N" "c < 1024 * (j + 1)" for c
  proof (rule apply_writes_written)
    have "c = 1024 * j + (c - 1024 * j)" "c - 1024 * j < 1024" using c by simp_all
    then show "(b * N + c, int (hits_before hit N b c)) \<in> set ?ws"
      using c(2) unfolding mem by (intro exI[of _ "c - 1024 * j"]) simp
    show "\<forall>v'. (b * N + c, v') \<in> set ?ws \<longrightarrow> v' = int (hits_before hit N b c)"
      unfolding mem by auto
    show "b * N + c < length p" using row_index[OF b c(2)] len(3) by simp
  qed
  have untouched: "apply_writes ?ws p ! q = p ! q"
    if "\<forall>t<1024. 1024 * j + t < N \<longrightarrow> q \<noteq> b * N + (1024 * j + t)" for q
  proof (rule apply_writes_untouched)
    show "q \<notin> fst ` set ?ws"
    proof
      assume "q \<in> fst ` set ?ws"
      then obtain v where "(q, v) \<in> set ?ws" by force
      then show False using that unfolding mem by blast
    qed
  qed
  have rd: "row_done hit N b (min N (1024 * (j + 1))) (apply_writes ?ws p)"
    unfolding row_done_def
  proof (intro allI impI)
    fix c assume c: "c < min N (1024 * (j + 1))"
    show "apply_writes ?ws p ! (b * N + c) = int (hits_before hit N b c)"
    proof (cases "1024 * j \<le> c")
      case True
      then show ?thesis using c by (intro written) simp_all
    next
      case False
      then have "apply_writes ?ws p ! (b * N + c) = p ! (b * N + c)" by (intro untouched) simp
      moreover have "p ! (b * N + c) = int (hits_before hit N b c)"
        using dn False by (simp add: row_done_def)
      ultimately show ?thesis by simp
    qed
  qed
  have rk: "rows_kept N b p (apply_writes ?ws p)"
    unfolding rows_kept_def
  proof (intro allI impI)
    fix b' c assume bc: "b' \<noteq> b \<and> c < N"
    show "apply_writes ?ws p ! (b' * N + c) = p ! (b' * N + c)"
    proof (rule untouched, intro allI impI)
      fix t assume "t < 1024" "1024 * j + t < N"
      show "b' * N + c \<noteq> b * N + (1024 * j + t)"
      proof
        assume "b' * N + c = b * N + (1024 * j + t)"
        from row_unique[OF this] bc \<open>1024 * j + t < N\<close> show False by simp
      qed
    qed
  qed
  from run rd rk len(3) show ?thesis by (intro exI[of _ "apply_writes ?ws p"]) simp
qed

lemma scan2_iteration:
  assumes b: "b < nb" and sz: "nb * N < 4294967296" "N + 1024 < 2147483648"
    and len: "length hit = nb * N" "length input = 1024" "length p = nb * N" and j: "1024 * j < N"
    and hb: "hit_bool nb N hit"
    and dn: "row_done hit N b (1024 * j) p"
  shows "\<exists>input1 p1.
           run_threads (scan2_load b (int N) hit (int j)) [0 ..< 1024] input = Inr input1
         \<and> run_threads (scan2_store b (int N) hit (sharedMemExclusiveScan input1 1024) (int j)) [0 ..< 1024] p = Inr p1
         \<and> length input1 = 1024 \<and> length p1 = nb * N
         \<and> row_done hit N b (min N (1024 * (j + 1))) p1 \<and> rows_kept N b p p1"
proof -
  from scan2_load_phase[OF b sz len(1,2) j]
  obtain input1 where l: "run_threads (scan2_load b (int N) hit (int j)) [0 ..< 1024] input = Inr input1"
     "length input1 = 1024"
     "\<forall>t<1024. 1024 * j + t < N \<longrightarrow> input1 ! t = word_of_int (hit ! (b * N + (1024 * j + t)))"
    by blast
  have out: "\<forall>t<1024. 1024 * j + t \<le> N
               \<longrightarrow> sharedMemExclusiveScan input1 1024 ! t = of_nat (hits_in hit N b (1024 * j) t)"
    using scan_chunk[OF hb b l(2,3)] by blast
  have "length (sharedMemExclusiveScan input1 1024) = 1024" by simp
  from scan2_store_phase[OF b sz len(1) this len(3) j hb out dn]
  obtain p1 where "run_threads (scan2_store b (int N) hit (sharedMemExclusiveScan input1 1024) (int j)) [0 ..< 1024] p = Inr p1"
    "length p1 = nb * N" "row_done hit N b (min N (1024 * (j + 1))) p1" "rows_kept N b p p1"
    by blast
  with l(1,2) show ?thesis by blast
qed

lemma rows_kept_trans: "rows_kept N b p p1 \<Longrightarrow> rows_kept N b p1 p' \<Longrightarrow> rows_kept N b p p'"
  by (simp add: rows_kept_def)

lemma floor1024: "1024 * ((N + 1023) div 1024) < (N::nat) + 1024"
proof -
  have "(N + 1023) div 1024 * 1024 \<le> N + 1023" by (rule div_times_less_eq_dividend)
  then show ?thesis by linarith
qed

lemma scan2_loop_ok:
  assumes b: "b < nb" and sz: "nb * N < 4294967296" "N + 1024 < 2147483648"
    and len: "length hit = nb * N" and hb: "hit_bool nb N hit"
    and st: "length input = 1024" "length p = nb * N" "1024 * j < N" "row_done hit N b (1024 * j) p"
  shows "\<exists>input' p'. scan2_loop b (int N) hit (int ((N + 1023) div 1024)) (int j) (input, p) = Inr (input', p')
           \<and> length p' = nb * N \<and> row_done hit N b N p' \<and> rows_kept N b p p'"
  using st
proof (induction k \<equiv> "(N + 1023) div 1024 - j" arbitrary: j input p)
  case 0
  let ?M = "(N + 1023) div 1024"
  from scan2_iteration[OF b sz len "0.prems"(1,2,3) hb "0.prems"(4)]
  obtain input1 p1 where it:
    "run_threads (scan2_load b (int N) hit (int j)) [0 ..< 1024] input = Inr input1"
    "run_threads (scan2_store b (int N) hit (sharedMemExclusiveScan input1 1024) (int j)) [0 ..< 1024] p = Inr p1"
    "length input1 = 1024" "length p1 = nb * N"
    "row_done hit N b (min N (1024 * (j + 1))) p1" "rows_kept N b p p1"
    by blast
  have "?M \<le> j" using "0.hyps" by simp
  then have stop: "\<not> int j + 1 < int ?M" by simp
  have "N \<le> 1024 * ?M" by (rule ceil1024)
  also have "\<dots> \<le> 1024 * (j + 1)" using \<open>?M \<le> j\<close> by simp
  finally have "min N (1024 * (j + 1)) = N" by simp
  with it(5) have rd: "row_done hit N b N p1" by simp
  have "scan2_loop b (int N) hit (int ?M) (int j) (input, p) = Inr (input1, p1)"
    by (subst scan2_loop.simps) (simp only: it(1,2) sum.case Let_def stop if_False)
  with rd it(4,6) show ?case by blast
next
  case (Suc k)
  let ?M = "(N + 1023) div 1024"
  from scan2_iteration[OF b sz len Suc.prems(1,2,3) hb Suc.prems(4)]
  obtain input1 p1 where it:
    "run_threads (scan2_load b (int N) hit (int j)) [0 ..< 1024] input = Inr input1"
    "run_threads (scan2_store b (int N) hit (sharedMemExclusiveScan input1 1024) (int j)) [0 ..< 1024] p = Inr p1"
    "length input1 = 1024" "length p1 = nb * N"
    "row_done hit N b (min N (1024 * (j + 1))) p1" "rows_kept N b p p1"
    by blast
  show ?case
  proof (cases "j + 1 < ?M")
    case True
    then have go: "int (j + 1) < int ?M" by simp
    have "1024 * (j + 1) + 1024 \<le> 1024 * ?M" using True by simp
    also have "\<dots> < N + 1024" by (rule floor1024)
    finally have lt: "1024 * (j + 1) < N" by simp
    then have "min N (1024 * (j + 1)) = 1024 * (j + 1)" by simp
    with it(5) have rd: "row_done hit N b (1024 * (j + 1)) p1" by simp
    have k: "k = ?M - (j + 1)" using Suc.hyps(2) by simp
    from Suc.hyps(1)[OF k it(3,4) lt rd]
    obtain input' p' where r:
      "scan2_loop b (int N) hit (int ?M) (int (j + 1)) (input1, p1) = Inr (input', p')"
      "length p' = nb * N" "row_done hit N b N p'" "rows_kept N b p1 p'"
      by blast
    have e: "int j + 1 = int (j + 1)" by simp
    have "scan2_loop b (int N) hit (int ?M) (int j) (input, p) = Inr (input', p')"
      by (subst scan2_loop.simps) (simp only: it(1,2) sum.case Let_def e go if_True r(1))
    with r(2,3) rows_kept_trans[OF it(6) r(4)] show ?thesis by blast
  next
    case False
    then have stop: "\<not> int j + 1 < int ?M" by simp
    have "N \<le> 1024 * ?M" by (rule ceil1024)
    also have "\<dots> \<le> 1024 * (j + 1)" using False by simp
    finally have "min N (1024 * (j + 1)) = N" by simp
    with it(5) have rd: "row_done hit N b N p1" by simp
    have "scan2_loop b (int N) hit (int ?M) (int j) (input, p) = Inr (input1, p1)"
      by (subst scan2_loop.simps) (simp only: it(1,2) sum.case Let_def stop if_False)
    with rd it(4,6) show ?thesis by blast
  qed
qed

lemma scan2_maxIterations:
  assumes "N + 1024 < 2147483648"
  shows "c_div (wrap32 (wrap32 (int N + SCAN_BLOCK_DIM) - 1)) SCAN_BLOCK_DIM = Inr (int ((N + 1023) div 1024))"
proof -
  have e1: "int N + 1024 = int (N + 1024)" by simp
  have 1: "wrap32 (int (N + 1024)) = int (N + 1024)" using assms by (rule wrap32_nat)
  have e2: "int (N + 1024) - 1 = int (N + 1023)" by simp
  have 2: "wrap32 (int (N + 1023)) = int (N + 1023)" using assms by (intro wrap32_nat) linarith
  have "c_div (int (N + 1023)) (int 1024) = Inr (int ((N + 1023) div 1024))"
    using assms by (intro c_div_nat) simp_all
  then have 3: "c_div (int (N + 1023)) 1024 = Inr (int ((N + 1023) div 1024))" by simp
  show ?thesis by (simp only: SCAN_BLOCK_DIM_def e1 1 e2 2 3)
qed

lemma kernelScan2_ok:
  assumes b: "b < nb" and sz: "nb * N < 4294967296" "N + 1024 < 2147483648"
    and len: "length hit = nb * N" and hb: "hit_bool nb N hit"
    and st: "length shared = 1024" "length p = nb * N" and N: "0 < N"
  shows "\<exists>p'. kernelScan2 hit (int N) shared b p = Inr p'
           \<and> length p' = nb * N \<and> row_done hit N b N p' \<and> rows_kept N b p p'"
proof -
  have j0: "1024 * 0 < N" using N by simp
  have rd0: "row_done hit N b (1024 * 0) p" by (simp add: row_done_def)
  from scan2_loop_ok[OF b sz len hb st j0 rd0]
  obtain input' p' where r:
    "scan2_loop b (int N) hit (int ((N + 1023) div 1024)) (int 0) (shared, p) = Inr (input', p')"
    "length p' = nb * N" "row_done hit N b N p'" "rows_kept N b p p'"
    by blast
  have r1: "scan2_loop b (int N) hit (int ((N + 1023) div 1024)) 0 (shared, p) = Inr (input', p')"
    using r(1) by simp
  have "kernelScan2 hit (int N) shared b p = Inr p'"
    by (simp only: kernelScan2_def scan2_maxIterations[OF sz(2)] sum.case r1 prod.case)
  with r(2,3,4) show ?thesis by blast
qed

lemma run_blocks_append:
  "run_blocks kern (bs @ cs) s = (case run_blocks kern bs s of Inl e \<Rightarrow> Inl e | Inr s' \<Rightarrow> run_blocks kern cs s')"
  by (induction bs arbitrary: s) (auto split: sum.splits)

lemma kernelScan2_blocks:
  assumes sz: "nb * N < 4294967296" "N + 1024 < 2147483648"
    and len: "length hit = nb * N" "length p = nb * N" and hb: "hit_bool nb N hit"
    and sh: "\<forall>b. length (shared b) = 1024" and N: "0 < N" and m: "m \<le> nb"
  shows "\<exists>p'. run_blocks (\<lambda>b. kernelScan2 hit (int N) (shared b) b) [0 ..< m] p = Inr p'
           \<and> length p' = nb * N \<and> (\<forall>b<m. row_done hit N b N p')"
  using m
proof (induction m)
  case 0
  then show ?case using len(2) by simp
next
  case (Suc m)
  then obtain p1 where p1: "run_blocks (\<lambda>b. kernelScan2 hit (int N) (shared b) b) [0 ..< m] p = Inr p1"
    "length p1 = nb * N" "\<forall>b<m. row_done hit N b N p1" by auto
  have m: "m < nb" using Suc.prems by simp
  have "length (shared m) = 1024" using sh by simp
  from kernelScan2_ok[OF m sz len(1) hb this p1(2) N]
  obtain p' where p': "kernelScan2 hit (int N) (shared m) m p1 = Inr p'"
    "length p' = nb * N" "row_done hit N m N p'" "rows_kept N m p1 p'"
    by blast
  have "row_done hit N b N p'" if "b < Suc m" for b
  proof (cases "b = m")
    case True
    with p'(3) show ?thesis by simp
  next
    case False
    with that have "b < m" by simp
    with p1(3) have "row_done hit N b N p1" by simp
    with p'(4) False show ?thesis by (simp add: row_done_def rows_kept_def)
  qed
  moreover have "run_blocks (\<lambda>b. kernelScan2 hit (int N) (shared b) b) [0 ..< Suc m] p = Inr p'"
    by (simp add: run_blocks_append p1(1) p'(1))
  ultimately show ?case using p'(2) by blast
qed

lemma kernelScan2_launch_prefix_ok:
  assumes "nb * N < 4294967296" "N + 1024 < 2147483648"
    and "length hit = nb * N" "length p = nb * N" and "hit_bool nb N hit"
    and "\<forall>b. length (shared b) = 1024" and "0 < N"
  shows "\<exists>p'. kernelScan2_launch nb hit (int N) shared p = Inr p' \<and> length p' = nb * N \<and> prefix_ok nb N hit p'"
  using kernelScan2_blocks[OF assms order_refl]
  by (simp add: kernelScan2_launch_def prefix_ok_def row_done_def)

lemma tile_hits_card: "length (tile_hits hit N t) = card {c. c < N \<and> hit ! (t * N + c) = 1}"
  using distinct_card[OF tile_hits_distinct[of hit N t]] tile_hits_set[of hit N t] by simp

text \<open>
  Claim C4: the scan stage (\<open>kernelScan2\<close>, one block of 1024 threads per tile, the hit row
  scanned in chunks of \<open>SCAN_BLOCK_DIM = 1024\<close> elements with the carry taken from the last
  element of the previous chunk) returns, and the prefix matrix it leaves satisfies, for every
  tile \<open>t\<close>: \<open>prefix[t][0] = 0\<close>; \<open>prefix[t][c+1] = prefix[t][c] + hit[t][c]\<close> for all
  \<open>c + 1 < N\<close>, whether or not \<open>c\<close> and \<open>c + 1\<close> lie in the same chunk; and
  \<open>prefix[t][N-1] + hit[t][N-1]\<close> is the number of circles that hit the tile. The
  hypotheses: \<open>N \<ge> 1\<close> circles, both matrices have \<open>numBlocks * N\<close> elements, the unsigned
  index \<open>blockIdx.x*numCircles + i\<close> and the \<open>int\<close> \<open>numCircles + SCAN_BLOCK_DIM\<close> do
  not overflow, and the hit matrix holds 0 and 1 only. Neither the old contents of \<open>prefixes\<close>
  nor the uninitialised shared array \<open>prefixSumInput\<close> matter.
\<close>

theorem kernelScan2_launch_prefix:
  assumes "nb * N < 4294967296" and "N + 1024 < 2147483648"
    and "length hit = nb * N" and "length prefixes = nb * N" and "hit_bool nb N hit"
    and "\<forall>b. length (shared b) = 1024" and "0 < N" and "t < nb"
  shows "\<exists>p'. kernelScan2_launch nb hit (int N) shared prefixes = Inr p' \<and>
           p' ! (t * N) = 0 \<and>
           (\<forall>c. c + 1 < N \<longrightarrow> p' ! (t * N + (c + 1)) = p' ! (t * N + c) + hit ! (t * N + c)) \<and>
           p' ! (t * N + (N - 1)) + hit ! (t * N + (N - 1)) = int (card {c. c < N \<and> hit ! (t * N + c) = 1})"
proof -
  from kernelScan2_launch_prefix_ok[OF assms(1-7)] obtain p' where
    run: "kernelScan2_launch nb hit (int N) shared prefixes = Inr p'" and ok: "prefix_ok nb N hit p'"
    by blast
  have p: "p' ! (t * N + c) = int (hits_before hit N t c)" if "c < N" for c
    using ok assms(8) that by (simp add: prefix_ok_def)
  have h: "hit ! (t * N + c) = (if hitp hit N t c then 1 else 0)" if "c < N" for c
    using assms(5,8) that by (auto simp: hit_bool_def hitp_def)
  have "p' ! (t * N + 0) = int (hits_before hit N t 0)" using assms(7) by (rule p)
  then have first: "p' ! (t * N) = 0" by (simp add: hits_before_def)
  have step: "p' ! (t * N + (c + 1)) = p' ! (t * N + c) + hit ! (t * N + c)" if "c + 1 < N" for c
  proof -
    have "c < N" using that by simp
    from p[OF that] p[OF this] h[OF this] show ?thesis by (simp add: hits_before_Suc)
  qed
  have N1: "N - 1 < N" using assms(7) by simp
  have "int (length (tile_hits hit N t)) = p' ! (t * N + (N - 1)) + hit ! (t * N + (N - 1))"
    unfolding hits_before_last[OF assms(7)] p[OF N1] h[OF N1] by simp
  then have total: "p' ! (t * N + (N - 1)) + hit ! (t * N + (N - 1))
                      = int (card {c. c < N \<and> hit ! (t * N + c) = 1})"
    by (simp only: tile_hits_card)
  from run first step total show ?thesis by blast
qed

theorem kernelScan2_launch_prefix_witness:
  "(1::nat) * 1025 < 4294967296 \<and> (1025::nat) + 1024 < 2147483648
   \<and> length (replicate 1025 (1::int)) = 1 * 1025 \<and> hit_bool 1 1025 (replicate 1025 1)
   \<and> (\<exists>p'. kernelScan2_launch 1 (replicate 1025 1) 1025 (\<lambda>b. replicate 1024 0) (replicate 1025 7) = Inr p'
          \<and> p' ! 0 = 0 \<and> p' ! 1024 = p' ! 1023 + 1 \<and> p' ! 1024 + 1 = 1025)"
proof -
  have hb: "hit_bool 1 1025 (replicate 1025 1)" by (simp add: hit_bool_def)
  have "{c. c < 1025 \<and> replicate 1025 (1::int) ! (0 * 1025 + c) = 1} = {..<1025}" by auto
  then have cd: "card {c. c < 1025 \<and> replicate 1025 (1::int) ! (0 * 1025 + c) = 1} = 1025" by simp
  from kernelScan2_launch_prefix[of 1 1025 "replicate 1025 1" "replicate 1025 7" "\<lambda>b. replicate 1024 0" 0, OF _ _ _ _ hb]
  obtain p' where r: "kernelScan2_launch 1 (replicate 1025 1) (int 1025) (\<lambda>b. replicate 1024 0) (replicate 1025 7) = Inr p'"
    "p' ! (0 * 1025) = 0"
    "\<forall>c. c + 1 < 1025 \<longrightarrow> p' ! (0 * 1025 + (c + 1)) = p' ! (0 * 1025 + c) + replicate 1025 (1::int) ! (0 * 1025 + c)"
    "p' ! (0 * 1025 + (1025 - 1)) + replicate 1025 (1::int) ! (0 * 1025 + (1025 - 1))
       = int (card {c. c < 1025 \<and> replicate 1025 (1::int) ! (0 * 1025 + c) = 1})"
    by auto
  from r(3) have "(1023::nat) + 1 < 1025 \<longrightarrow> p' ! (0 * 1025 + (1023 + 1)) = p' ! (0 * 1025 + 1023) + replicate 1025 (1::int) ! (0 * 1025 + 1023)"
    by (rule spec)
  then have s: "p' ! 1024 = p' ! 1023 + 1" by simp
  from r(4) have e: "p' ! 1024 + 1 = 1025" unfolding cd by simp
  from r(1) have r1: "kernelScan2_launch 1 (replicate 1025 1) 1025 (\<lambda>b. replicate 1024 0) (replicate 1025 7) = Inr p'"
    by simp
  from r(2) have f: "p' ! 0 = 0" by simp
  from hb r1 f s e show ?thesis by simp
qed

end
